theory Spec2Isabelle
  imports Complex_Main "HOL-Library.Stream"
begin

section \<open>Polynomial-optics image post-processing: the model\<close>

text \<open>
  The program is \<^verbatim>\<open>polynomialOpticsExample_modified.cpp\<close>: its \<^verbatim>\<open>main\<close> filters a HDR
  image through a polynomial model of an achromatic doublet.

  The floating-point operations that decide what the program does next are modelled
  with their rounding: the product and the cast that give the number of samples of a
  pixel, the weight of a sample, the conversion of \<^verbatim>\<open>rand()\<close> to an aperture coordinate,
  and the test of the rejection loop. They are single-precision operations
  (\<open>c_float\<close>), and double-precision ones (\<open>c_double\<close>) where an operand is a
  \<^verbatim>\<open>double\<close> literal, each rounded to nearest with ties to even, as the program
  compiled for x86-64 with SSE arithmetic performs them. The exponent range is taken
  unbounded: overflow and subnormal numbers are outside the model.

  The values that the samples carry (the evaluation of the polynomial system, the
  position on the sensor, the radiance, the accumulation in the image, the gamut
  correction) are computed over the reals, which differs from the program by the
  rounding of each operation; division by zero (a magnification of 0, an empty input
  image) is outside the model. Where the program depends on the special values of IEEE
  arithmetic (the NaN test of the Lambertian term) they are modelled explicitly by
  \<open>cfloat\<close>.
\<close>

subsection \<open>Configuration constants of \<^verbatim>\<open>main\<close>\<close>

definition degree :: nat where "degree = 3"
definition sample_mul :: real where "sample_mul = 1000"
definition r_entrance :: real where "r_entrance = 19.5"
definition num_lambdas :: nat where "num_lambdas = 12"
definition sensor_width :: real where "sensor_width = 36"
definition sensor_xres :: nat where "sensor_xres = 1920"
definition sensor_yres :: nat where "sensor_yres = 1080"
definition sensor_scaling :: real where "sensor_scaling = real sensor_xres / sensor_width"
definition lambda_from :: real where "lambda_from = 440"
definition lambda_to :: real where "lambda_to = 660"
definition r_pupil :: real where "r_pupil = r_entrance"

subsection \<open>Floating-point values with the IEEE special values\<close>

datatype cfloat = Fin real | PInf | NInf | NaN

text \<open>Subtraction; \<open>\<infinity> - \<infinity>\<close> is NaN and NaN propagates.\<close>

fun fsub :: "cfloat \<Rightarrow> cfloat \<Rightarrow> cfloat" where
  "fsub NaN _ = NaN"
| "fsub _ NaN = NaN"
| "fsub (Fin a) (Fin b) = Fin (a - b)"
| "fsub (Fin a) PInf = NInf"
| "fsub (Fin a) NInf = PInf"
| "fsub PInf PInf = NaN"
| "fsub PInf _ = PInf"
| "fsub NInf NInf = NaN"
| "fsub NInf _ = NInf"

text \<open>\<^verbatim>\<open>sqrt\<close> of the C library: NaN on a negative argument.\<close>

fun fsqrt :: "cfloat \<Rightarrow> cfloat" where
  "fsqrt (Fin a) = (if a < 0 then NaN else Fin (sqrt a))"
| "fsqrt PInf = PInf"
| "fsqrt NInf = NaN"
| "fsqrt NaN = NaN"

text \<open>The comparison \<^verbatim>\<open>!=\<close>: true whenever an operand is NaN.\<close>

fun fneq :: "cfloat \<Rightarrow> cfloat \<Rightarrow> bool" where
  "fneq NaN _ = True"
| "fneq _ NaN = True"
| "fneq a b = (a \<noteq> b)"

text \<open>
  Lines 211--215:
  \<^verbatim>\<open>float lambert = sqrt(1 - out[2]); if (lambert != lambert) lambert = 0;\<close>
\<close>

definition lambert :: "cfloat \<Rightarrow> cfloat" where
  "lambert out2 = (let l = fsqrt (fsub (Fin 1) out2) in if fneq l l then Fin 0 else l)"



subsection \<open>Rounding to single and double precision\<close>

text \<open>The nearest integer, the even one of the two at a tie.\<close>

definition round_even :: "real \<Rightarrow> int" where
  "round_even y =
     (let f = \<lfloor>y\<rfloor>; d = y - of_int f
      in if d < 1/2 then f else if 1/2 < d then f + 1 else if even f then f else f + 1)"

text \<open>The binary exponent of a number that is not zero: \<open>2 ^ e \<le> |x| < 2 ^ (e + 1)\<close>.\<close>

definition fexp :: "real \<Rightarrow> int" where
  "fexp x = \<lfloor>log 2 \<bar>x\<bar>\<rfloor>"

text \<open>
  Rounding to \<open>p\<close> significant bits: the number is brought to a significand of \<open>p\<close>
  bits before the binary point, rounded to an integer, and scaled back.
\<close>

definition fround :: "nat \<Rightarrow> real \<Rightarrow> real" where
  "fround p x =
     (if x = 0 then 0
      else of_int (round_even (x / 2 powi (fexp x - int p + 1))) * 2 powi (fexp x - int p + 1))"

text \<open>The result of an operation in \<^verbatim>\<open>float\<close> (24 bits) and in \<^verbatim>\<open>double\<close> (53 bits).\<close>

definition c_float :: "real \<Rightarrow> real" where
  "c_float = fround 24"

definition c_double :: "real \<Rightarrow> real" where
  "c_double = fround 53"

subsection \<open>Quasi-importance sampling: sample count and weight\<close>

text \<open>
  The cast \<^verbatim>\<open>(int)x\<close> truncates towards zero. C++ leaves it undefined when the
  truncated value is not representable in a 32-bit \<^verbatim>\<open>int\<close>; the conversion
  instruction of x86-64 that the program is compiled to (\<^verbatim>\<open>cvttss2si\<close>) then gives
  \<^verbatim>\<open>INT_MIN\<close>, and so does the model.
\<close>

definition trunc_real :: "real \<Rightarrow> int" where
  "trunc_real x = (if 0 \<le> x then \<lfloor>x\<rfloor> else \<lceil>x\<rceil>)"

definition float_to_int :: "real \<Rightarrow> int" where
  "float_to_int x =
     (let t = trunc_real x
      in if - 2147483648 \<le> t \<and> t \<le> 2147483647 then t else - 2147483648)"

text \<open>
  Line 185: \<^verbatim>\<open>int num_samples = max(1,(int)(L_in * sample_mul));\<close>
  The product of two \<^verbatim>\<open>float\<close>s is rounded to a \<^verbatim>\<open>float\<close> before the cast.
\<close>

definition num_samples :: "real \<Rightarrow> real \<Rightarrow> int" where
  "num_samples L_in m = max 1 (float_to_int (c_float (L_in * m)))"

text \<open>
  Line 186: \<^verbatim>\<open>float sample_weight = L_in / num_samples;\<close>
  The count is converted to \<^verbatim>\<open>float\<close> and the quotient is a \<^verbatim>\<open>float\<close>.
\<close>

definition sample_weight :: "real \<Rightarrow> int \<Rightarrow> real" where
  "sample_weight L_in n = c_float (L_in / c_float (of_int n))"

subsection \<open>World coordinates of a pixel\<close>

text \<open>
  Lines 165--166 and 173--174. \<open>width\<close> and \<open>height\<close> are the pixel dimensions of the
  input image; \<^verbatim>\<open>height/2\<close> is an integer division of a non-negative \<^verbatim>\<open>int\<close>.
\<close>

definition y_sensor :: "nat \<Rightarrow> nat \<Rightarrow> nat \<Rightarrow> real \<Rightarrow> real" where
  "y_sensor j height width sw = (of_int (int j - int (height div 2)) / real width) * sw"

definition y_world :: "nat \<Rightarrow> nat \<Rightarrow> nat \<Rightarrow> real \<Rightarrow> real \<Rightarrow> real" where
  "y_world j height width sw magnification = y_sensor j height width sw / magnification"

definition x_sensor :: "nat \<Rightarrow> nat \<Rightarrow> real \<Rightarrow> real" where
  "x_sensor i width sw = (real i / real width - 0.5) * sw"

definition x_world :: "nat \<Rightarrow> nat \<Rightarrow> real \<Rightarrow> real \<Rightarrow> real" where
  "x_world i width sw magnification = x_sensor i width sw / magnification"

text \<open>
  The specification speaks of the physical height of the sensor. The program has no
  such quantity; with the sensor of \<open>sensor_xres \<times> sensor_yres\<close> square pixels over
  the width \<open>sensor_width\<close> it is \<open>36 * 1080 / 1920 = 20.25\<close>.
\<close>

definition spec_sensor_height :: real where
  "spec_sensor_height = sensor_width * real sensor_yres / real sensor_xres"

subsection \<open>The random source and the aperture rejection loop\<close>

text \<open>
  \<^verbatim>\<open>rand()\<close> reads a global generator. Its state is the stream of the numbers it
  will return; each call returns a value between 0 and \<^verbatim>\<open>RAND_MAX\<close> and advances the
  stream. \<^verbatim>\<open>RAND_MAX\<close> is the value of the GNU C library.
\<close>

definition RAND_MAX :: nat where "RAND_MAX = 2147483647"

definition c_rand :: "nat stream \<Rightarrow> nat \<times> nat stream" where
  "c_rand s = (shd s mod (RAND_MAX + 1), stl s)"

text \<open>
  \<^verbatim>\<open>rand() / (float)RAND_MAX\<close> for the value \<open>a\<close> of \<^verbatim>\<open>rand()\<close>: both integers are
  converted to \<^verbatim>\<open>float\<close> (which makes \<^verbatim>\<open>RAND_MAX\<close> \<open>2 ^ 31\<close>) and the quotient is a
  \<^verbatim>\<open>float\<close>.
\<close>

definition rand_fraction :: "nat \<Rightarrow> real" where
  "rand_fraction a = c_float (c_float (real a) / c_float (real RAND_MAX))"

text \<open>
  \<^verbatim>\<open>rand() / (float)RAND_MAX - 0.5\<close>, used at lines 194, 195 and 201: the literal is a
  \<^verbatim>\<open>double\<close>, so the \<^verbatim>\<open>float\<close> is converted (exactly) and the difference is a
  \<^verbatim>\<open>double\<close>.
\<close>

definition unit_rand :: "nat stream \<Rightarrow> real \<times> nat stream" where
  "unit_rand s = (case c_rand s of (a, s') \<Rightarrow> (c_double (rand_fraction a - 0.5), s'))"

text \<open>
  \<^verbatim>\<open>x_ap = (...) * 2 * r_pupil\<close> for the value \<open>d\<close> of the parenthesis: two products
  in \<^verbatim>\<open>double\<close> (the \<^verbatim>\<open>float\<close> \<^verbatim>\<open>r_pupil\<close> is converted exactly), stored in a
  \<^verbatim>\<open>float\<close>.
\<close>

definition aperture_coord :: "real \<Rightarrow> real \<Rightarrow> real" where
  "aperture_coord r d = c_float (c_double (c_double (d * 2) * r))"

text \<open>One pass through the body of the \<^verbatim>\<open>do\<close> loop, lines 194--195.\<close>

definition candidate :: "real \<Rightarrow> nat stream \<Rightarrow> real \<times> real \<times> nat stream" where
  "candidate r s =
     (case unit_rand s of (u, s1) \<Rightarrow>
        (case unit_rand s1 of (v, s2) \<Rightarrow> (aperture_coord r u, aperture_coord r v, s2)))"

text \<open>
  The test of the loop, line 196: \<^verbatim>\<open>x_ap * x_ap + y_ap * y_ap > r_pupil * r_pupil\<close>,
  every operation in \<^verbatim>\<open>float\<close>.
\<close>

definition outside :: "real \<Rightarrow> real \<Rightarrow> real \<Rightarrow> bool" where
  "outside r x_ap y_ap \<longleftrightarrow>
     c_float (c_float (x_ap * x_ap) + c_float (y_ap * y_ap)) > c_float (r * r)"

text \<open>
  Lines 193--196: \<^verbatim>\<open>do { ... } while (x_ap * x_ap + y_ap * y_ap > r_pupil * r_pupil);\<close>
  The loop has no bound: where it runs forever the result is \<open>None\<close>.
\<close>

partial_function (option) sample_aperture ::
    "real \<Rightarrow> nat stream \<Rightarrow> (real \<times> real \<times> nat stream) option" where
  "sample_aperture r s =
     (case candidate r s of (x_ap, y_ap, s') \<Rightarrow>
        if outside r x_ap y_ap then sample_aperture r s'
        else Some (x_ap, y_ap, s'))"

declare sample_aperture.simps [code]

text \<open>The candidates of the loop are pairs of consecutive numbers of the stream.\<close>

definition accepted :: "real \<Rightarrow> nat stream \<Rightarrow> bool" where
  "accepted r s = (case candidate r s of (x_ap, y_ap, s') \<Rightarrow> \<not> outside r x_ap y_ap)"

text \<open>
  The specification draws the candidates uniformly from the square. Over the reals the
  value \<open>a\<close> of \<^verbatim>\<open>rand()\<close> stands for the point \<open>(a / RAND_MAX - 1/2) * 2 * r\<close> of the
  interval \<open>[- r, r]\<close>, and the \<open>RAND_MAX + 1\<close> values are spread evenly over it.
\<close>

definition spec_uniform_coord :: "real \<Rightarrow> nat \<Rightarrow> real" where
  "spec_uniform_coord r a = (real a / real RAND_MAX - 1/2) * 2 * r"

subsection \<open>Images\<close>

text \<open>
  Modelled from the spec: the image library (\<^verbatim>\<open>include/CImg.h\<close>) is not among the
  sources. The spec's Image is a dense 2D buffer of floating-point RGB radiance. Here it
  is a \<^verbatim>\<open>CImg<float>\<close> of depth 1: its dimensions and its buffer.
\<close>

record cimg =
  cwidth :: nat
  cheight :: nat
  cspectrum :: nat
  cdata :: "real list"

text \<open>
  Modelled from the spec: the place in the buffer of channel \<open>c\<close> of the pixel
  \<open>(x, y)\<close>; the channels are stored one plane after the other.
\<close>

definition offset :: "cimg \<Rightarrow> nat \<Rightarrow> nat \<Rightarrow> nat \<Rightarrow> nat" where
  "offset img x y c = x + y * cwidth img + c * cwidth img * cheight img"

text \<open>The buffer of a well-formed image has one value for each channel of each pixel.\<close>

definition wf_img :: "cimg \<Rightarrow> bool" where
  "wf_img img \<longleftrightarrow> length (cdata img) = cwidth img * cheight img * cspectrum img"

text \<open>
  Modelled from the spec: the constructor of an image of the given dimensions with every
  value set to \<open>v\<close>, as called at line 116:
  \<^verbatim>\<open>CImg<float> img_out(sensor_xres, sensor_yres, 1, 3, 0);\<close>
\<close>

definition new_img :: "nat \<Rightarrow> nat \<Rightarrow> nat \<Rightarrow> real \<Rightarrow> cimg" where
  "new_img w h s v = \<lparr>cwidth = w, cheight = h, cspectrum = s, cdata = replicate (w * h * s) v\<rparr>"

text \<open>
  Modelled from the spec: \<^verbatim>\<open>img.atXY(x,y,0,c)\<close> read at coordinates inside the image.
  The program and the operations below only use it there: the loops of the gamut
  correction run over the dimensions of the image, and the bilinear operations test the
  coordinates first.
\<close>

definition atXY :: "cimg \<Rightarrow> nat \<Rightarrow> nat \<Rightarrow> nat \<Rightarrow> real" where
  "atXY img x y c = cdata img ! offset img x y c"

text \<open>
  Modelled from the spec: \<^verbatim>\<open>img.atXY(x,y,0,c) = v\<close>, the assignment through the
  reference that \<^verbatim>\<open>atXY\<close> returns, at coordinates inside the image.
\<close>

definition set_atXY :: "cimg \<Rightarrow> nat \<Rightarrow> nat \<Rightarrow> nat \<Rightarrow> real \<Rightarrow> cimg" where
  "set_atXY img x y c v = img\<lparr>cdata := (cdata img)[offset img x y c := v]\<rparr>"

subsection \<open>Gamut correction\<close>

text \<open>Lines 230--236, the body of the loops; \<^verbatim>\<open>0.02f\<close> is taken as \<open>2/100\<close>.\<close>

definition max_value :: "cimg \<Rightarrow> nat \<Rightarrow> nat \<Rightarrow> real" where
  "max_value img i j = max (atXY img i j 0) (max (atXY img i j 1) (atXY img i j 2))"

definition gamut_pixel :: "nat \<Rightarrow> nat \<Rightarrow> cimg \<Rightarrow> cimg" where
  "gamut_pixel j i img =
     (let m = max_value img i j;
          img1 = set_atXY img i j 0 (max (atXY img i j 0) (0.02 * m));
          img2 = set_atXY img1 i j 1 (max (atXY img1 i j 1) (0.02 * m));
          img3 = set_atXY img2 i j 2 (max (atXY img2 i j 2) (0.02 * m))
      in img3)"

text \<open>Lines 228--239: the loops over the rows and the columns of the output image.\<close>

definition gamut_row :: "nat \<Rightarrow> nat \<Rightarrow> cimg \<Rightarrow> cimg" where
  "gamut_row xres j img = fold (gamut_pixel j) [0..<xres] img"

definition gamut_fix :: "nat \<Rightarrow> nat \<Rightarrow> cimg \<Rightarrow> cimg" where
  "gamut_fix xres yres img = fold (gamut_row xres) [0..<yres] img"

subsection \<open>Bilinear reading and splatting\<close>

text \<open>
  The spec's Image offers bilinear sampling on the read side and accumulation
  (add-and-store) at sub-pixel, bilinear coordinates on the write side. Both work on
  the cell that holds the point \<open>(fx, fy)\<close>: the four pixels \<open>(x, y)\<close>,
  \<open>(x+1, y)\<close>, \<open>(x, y+1)\<close>, \<open>(x+1, y+1)\<close>, with the offsets \<open>dx\<close> and \<open>dy\<close>
  of the point from \<open>(x, y)\<close> giving the bilinear weights.
\<close>

text \<open>
  Modelled from the spec: the coordinate of the cell of a sub-pixel coordinate (the
  image library is not among the sources), \<^verbatim>\<open>(int)fx - (fx >= 0 ? 0 : 1)\<close>.
\<close>

definition cell :: "real \<Rightarrow> int" where
  "cell fx = trunc_real fx - (if 0 \<le> fx then 0 else 1)"

text \<open>
  Modelled from the spec: reading a pixel with a value for the points outside the image
  (\<^verbatim>\<open>atXY(x,y,z,c,out_value)\<close> of the image library).
\<close>

definition atXY_out :: "cimg \<Rightarrow> int \<Rightarrow> int \<Rightarrow> nat \<Rightarrow> real \<Rightarrow> real" where
  "atXY_out img x y c out_value =
     (if 0 \<le> x \<and> x < int (cwidth img) \<and> 0 \<le> y \<and> y < int (cheight img) \<and> c < cspectrum img
      then atXY img (nat x) (nat y) c else out_value)"

text \<open>
  Modelled from the spec: the bilinear sampling of the read side
  (\<^verbatim>\<open>linear_atXY(fx,fy,z,c,out_value)\<close> of the image library), used at lines 178--180.
\<close>

definition linear_atXY :: "cimg \<Rightarrow> real \<Rightarrow> real \<Rightarrow> nat \<Rightarrow> real \<Rightarrow> real" where
  "linear_atXY img fx fy c out_value =
     (let x = cell fx; nx = x + 1; y = cell fy; ny = y + 1;
          dx = fx - of_int x; dy = fy - of_int y;
          Icc = atXY_out img x y c out_value; Inc = atXY_out img nx y c out_value;
          Icn = atXY_out img x ny c out_value; Inn = atXY_out img nx ny c out_value
      in Icc + dx * (Inc + dy * (Icc + Inn - Icn - Inc) - Icc) + dy * (Icn - Icc))"

text \<open>
  Modelled from the spec: the write to one of the four pixels of a splat, done only when
  its column is in the image. With \<open>is_added\<close> the weighted value is added to the
  pixel; without it the pixel is blended towards the value.
\<close>

definition splat_tap :: "real \<Rightarrow> bool \<Rightarrow> int \<Rightarrow> int \<Rightarrow> nat \<Rightarrow> real \<Rightarrow> cimg \<Rightarrow> cimg" where
  "splat_tap v is_added x y c w1 img =
     (if 0 \<le> x \<and> x < int (cwidth img)
      then set_atXY img (nat x) (nat y) c
             (w1 * v + (if is_added then 1 else 1 - w1) * atXY img (nat x) (nat y) c)
      else img)"

text \<open>
  Modelled from the spec: the bilinear splat of the write side
  (\<^verbatim>\<open>set_linear_atXY(value,fx,fy,z,c,is_added)\<close> of the image library), used at lines
  217--219 with \<open>is_added\<close> true.
\<close>

definition set_linear_atXY :: "real \<Rightarrow> real \<Rightarrow> real \<Rightarrow> nat \<Rightarrow> bool \<Rightarrow> cimg \<Rightarrow> cimg" where
  "set_linear_atXY v fx fy c is_added img =
     (let x = cell fx; nx = x + 1; y = cell fy; ny = y + 1;
          dx = fx - of_int x; dy = fy - of_int y
      in if c < cspectrum img then
           (let img1 = (if 0 \<le> y \<and> y < int (cheight img)
                        then splat_tap v is_added nx y c (dx * (1 - dy))
                               (splat_tap v is_added x y c ((1 - dx) * (1 - dy)) img)
                        else img);
                img2 = (if 0 \<le> ny \<and> ny < int (cheight img)
                        then splat_tap v is_added nx ny c (dx * dy)
                               (splat_tap v is_added x ny c ((1 - dx) * dy) img1)
                        else img1)
            in img2)
         else img)"

text \<open>The bilinear weight that a splat at \<open>(fx, fy)\<close> gives to the pixel \<open>(X, Y)\<close>.\<close>

definition axis_weight :: "real \<Rightarrow> nat \<Rightarrow> real" where
  "axis_weight fx X =
     (if int X = cell fx then 1 - (fx - of_int (cell fx))
      else if int X = cell fx + 1 then fx - of_int (cell fx) else 0)"

definition tap_weight :: "real \<Rightarrow> real \<Rightarrow> nat \<Rightarrow> nat \<Rightarrow> real" where
  "tap_weight fx fy X Y = axis_weight fx X * axis_weight fy Y"

subsection \<open>Truncated polynomial systems\<close>

text \<open>
  Modelled from the spec: the polynomial library (\<^verbatim>\<open>TruncPoly/TruncPolySystem.hh\<close>) is
  not among the sources. The spec's PolynomialTransform is a multivariate polynomial map
  from an input vector to an output vector; it supports substitution of one input
  variable with a number (baking, which reduces the arity by one), truncation to a lower
  degree (discarding the terms above a total degree), linear interpolation between two
  transforms of matching shape by a scalar control value between two reference points
  (the control value is one more input variable, the last), removal of one output
  equation, and evaluation at a numeric input vector. A polynomial is a list of terms,
  each a coefficient and the exponents of the input variables; a system is the list of
  its output equations. Sums and products of equations are the exact ones. The C++
  types fix the numbers of inputs and outputs of a system (\<^verbatim>\<open>Transform4d\<close>,
  \<^verbatim>\<open>System54f\<close>, \<^verbatim>\<open>System53d\<close>); here they are the lengths of the lists.
\<close>

type_synonym pterm = "real \<times> nat list"
type_synonym poly = "pterm list"
type_synonym polysys = "poly list"

text \<open>Modelled from the spec: the total degree of a term of the polynomial library.\<close>

definition term_degree :: "pterm \<Rightarrow> nat" where
  "term_degree t = sum_list (snd t)"

text \<open>Modelled from the spec: the sum of two polynomials (\<^verbatim>\<open>+\<close> of the polynomial library).\<close>

definition poly_add :: "poly \<Rightarrow> poly \<Rightarrow> poly" where
  "poly_add p q = p @ q"

text \<open>Modelled from the spec: the product of two terms of the polynomial library.\<close>

definition term_mul :: "pterm \<Rightarrow> pterm \<Rightarrow> pterm" where
  "term_mul t u = (fst t * fst u, map2 (+) (snd t) (snd u))"

text \<open>
  Modelled from the spec: the product of two polynomials (\<^verbatim>\<open>*\<close> of the polynomial
  library), every term of the one with every term of the other.
\<close>

definition poly_mul :: "poly \<Rightarrow> poly \<Rightarrow> poly" where
  "poly_mul p q = concat (map (\<lambda>t. map (term_mul t) q) p)"

text \<open>
  Modelled from the spec: truncation to a total degree, discarding the terms above it
  (\<^verbatim>\<open>%=\<close> of the polynomial library).
\<close>

definition poly_truncate :: "nat \<Rightarrow> poly \<Rightarrow> poly" where
  "poly_truncate d p = filter (\<lambda>t. term_degree t \<le> d) p"

text \<open>Modelled from the spec: removal of one output equation (\<^verbatim>\<open>drop_equation\<close>).\<close>

definition drop_equation :: "nat \<Rightarrow> polysys \<Rightarrow> polysys" where
  "drop_equation k sys = take k sys @ drop (Suc k) sys"

text \<open>Modelled from the spec: the value of a term of the polynomial library at an input vector.\<close>

definition eval_term :: "real list \<Rightarrow> pterm \<Rightarrow> real" where
  "eval_term xs t = fst t * prod_list (map2 (\<lambda>x e. x ^ e) xs (snd t))"

text \<open>Modelled from the spec: the value of a polynomial at an input vector.\<close>

definition eval_poly :: "real list \<Rightarrow> poly \<Rightarrow> real" where
  "eval_poly xs p = sum_list (map (eval_term xs) p)"

text \<open>
  Modelled from the spec: evaluation of a system at a numeric input vector, producing a
  numeric output vector (\<^verbatim>\<open>evaluate\<close> of the polynomial library).
\<close>

definition evaluate :: "polysys \<Rightarrow> real list \<Rightarrow> real list" where
  "evaluate sys xs = map (eval_poly xs) sys"

text \<open>
  Modelled from the spec: substitution of the input variable \<open>k\<close> with the number
  \<open>v\<close> in a term of the polynomial library; the variable disappears from the
  exponents.
\<close>

definition bake_term :: "nat \<Rightarrow> real \<Rightarrow> pterm \<Rightarrow> pterm" where
  "bake_term k v t =
     (fst t * v ^ (if k < length (snd t) then snd t ! k else 0),
      take k (snd t) @ drop (Suc k) (snd t))"

text \<open>
  Modelled from the spec: baking, the substitution of one input variable of a system
  with a number, which reduces the arity by one (\<^verbatim>\<open>bake_input_variable\<close> of the
  polynomial library).
\<close>

definition bake_input_variable :: "nat \<Rightarrow> real \<Rightarrow> polysys \<Rightarrow> polysys" where
  "bake_input_variable k v sys = map (map (bake_term k v)) sys"

text \<open>
  Modelled from the spec: a polynomial of the polynomial library times \<open>a * l ^ e\<close>,
  where \<open>l\<close> is a new last input variable.
\<close>

definition scale_ext :: "real \<Rightarrow> nat \<Rightarrow> poly \<Rightarrow> poly" where
  "scale_ext a e p = map (\<lambda>t. (a * fst t, snd t @ [e])) p"

text \<open>
  Modelled from the spec: linear interpolation between two polynomials of the polynomial
  library by a control value \<open>l\<close> between two reference points, a new last input:
  \<open>p * (pos_other - l) / (pos_other - pos_this) + q * (l - pos_this) / (pos_other - pos_this)\<close>.
\<close>

definition lerp_poly :: "real \<Rightarrow> real \<Rightarrow> poly \<Rightarrow> poly \<Rightarrow> poly" where
  "lerp_poly pos_this pos_other p q =
     (let d = pos_other - pos_this
      in scale_ext (pos_other / d) 0 p @ scale_ext (- 1 / d) 1 p
       @ scale_ext (- pos_this / d) 0 q @ scale_ext (1 / d) 1 q)"

text \<open>
  Modelled from the spec: linear interpolation between two transforms of matching shape
  by a control value between two reference points (\<^verbatim>\<open>lerp_with\<close> of the polynomial
  library), equation by equation.
\<close>

definition lerp_with :: "polysys \<Rightarrow> polysys \<Rightarrow> real \<Rightarrow> real \<Rightarrow> polysys" where
  "lerp_with sys other pos_this pos_other = map2 (lerp_poly pos_this pos_other) sys other"

text \<open>A system of \<open>m\<close> equations in \<open>n\<close> input variables.\<close>

definition wf_sys :: "nat \<Rightarrow> nat \<Rightarrow> polysys \<Rightarrow> bool" where
  "wf_sys n m sys \<longleftrightarrow> length sys = m \<and> list_all (list_all (\<lambda>t. length (snd t) = n)) sys"

subsection \<open>The collaborators of \<^verbatim>\<open>main\<close>\<close>

text \<open>
  What \<^verbatim>\<open>main\<close> obtains from code that is not among the sources: the input image, the
  magnification found by the focus solver, the lens system at a wavelength already
  composed with the focus propagation (\<^verbatim>\<open>get_system(lambda, 3) >> prop\<close>, with four
  inputs and four outputs), and the two spectral conversions.
\<close>

record collab =
  img_in :: cimg
  magnification :: real
  system_at :: "real \<Rightarrow> polysys"
  spectrum_rgb_to_p :: "real \<Rightarrow> real \<times> real \<times> real \<Rightarrow> real"
  spectrum_p_to_rgb :: "real \<Rightarrow> real \<Rightarrow> real \<times> real \<times> real"

subsection \<open>The Spectral Compositor\<close>

text \<open>Lines 133--138: the two sample systems and their interpolation.\<close>

definition system_spectral_center :: "collab \<Rightarrow> polysys" where
  "system_spectral_center C = system_at C 500"

definition system_spectral_right :: "collab \<Rightarrow> polysys" where
  "system_spectral_right C = system_at C 600"

definition system_spectral :: "collab \<Rightarrow> polysys" where
  "system_spectral C = lerp_with (system_spectral_center C) (system_spectral_right C) 550 600"

text \<open>
  Lines 142--144:
  \<^verbatim>\<open>s[2] = (s[2] * s[2] + s[3] * s[3]); s[2] %= 2; ... = s.drop_equation(3);\<close>
  The system has four equations by its type, \<^verbatim>\<open>System54f\<close>.
\<close>

definition lambert_cos2 :: "polysys \<Rightarrow> polysys" where
  "lambert_cos2 s =
     (let s1 = s[2 := poly_add (poly_mul (s ! 2) (s ! 2)) (poly_mul (s ! 3) (s ! 3))];
          s2 = s1[2 := poly_truncate 2 (s1 ! 2)]
      in drop_equation 3 s2)"

definition system_lambert_cos2 :: "collab \<Rightarrow> polysys" where
  "system_lambert_cos2 C = lambert_cos2 (system_spectral C)"

text \<open>
  The rearrangement as the specification words it, with the sum of squares reduced
  modulo the working degree.
\<close>

definition spec_lambert_cos2 :: "polysys \<Rightarrow> polysys" where
  "spec_lambert_cos2 s =
     drop_equation 3
       (s[2 := poly_truncate degree (poly_add (poly_mul (s ! 2) (s ! 2)) (poly_mul (s ! 3) (s ! 3)))])"

subsection \<open>The Monte Carlo renderer\<close>

text \<open>Lines 122--129 and 151--154: the wavelength of a bin and its RGB weight.\<close>

definition lambda_of :: "nat \<Rightarrow> real" where
  "lambda_of ll =
     (if num_lambdas = 1 then 550
      else lambda_from + (lambda_to - lambda_from) * (real ll / real (num_lambdas - 1)))"

definition rgb :: "collab \<Rightarrow> nat \<Rightarrow> real \<times> real \<times> real" where
  "rgb C ll = spectrum_p_to_rgb C (lambda_of ll) 1"

text \<open>Lines 158--159 and 169: the wavelength and the row baked into the system.\<close>

definition system_lambda :: "collab \<Rightarrow> nat \<Rightarrow> polysys" where
  "system_lambda C ll =
     map (poly_truncate degree) (bake_input_variable 4 (lambda_of ll) (system_lambert_cos2 C))"

definition system_y :: "collab \<Rightarrow> nat \<Rightarrow> nat \<Rightarrow> polysys" where
  "system_y C ll j =
     bake_input_variable 1
       (y_world j (cheight (img_in C)) (cwidth (img_in C)) sensor_width (magnification C))
       (system_lambda C ll)"

text \<open>Line 147: the support of an input pixel in the world plane.\<close>

definition pixel_size :: "collab \<Rightarrow> real" where
  "pixel_size C = sensor_width / real (cwidth (img_in C)) / magnification C"

text \<open>
  Lines 177--181: the spectral power of the input pixel at the bin's wavelength, stored
  in a \<^verbatim>\<open>float\<close>.
\<close>

definition L_in :: "collab \<Rightarrow> nat \<Rightarrow> nat \<Rightarrow> nat \<Rightarrow> real" where
  "L_in C ll j i =
     c_float
       (spectrum_rgb_to_p C (lambda_of ll)
          (linear_atXY (img_in C) (real i) (real j) 0 0,
           linear_atXY (img_in C) (real i) (real j) 1 0,
           linear_atXY (img_in C) (real i) (real j) 2 0))"

text \<open>
  The value of the Lambertian term as a number: a finite argument gives a finite
  value, so the second branch is never taken.
\<close>

definition lambert_value :: "real \<Rightarrow> real" where
  "lambert_value out2 = (case lambert (Fin out2) of Fin v \<Rightarrow> v | _ \<Rightarrow> 0)"

text \<open>
  What one sample adds to the image: the position on the sensor in pixels and the value
  for each channel (the arguments of the three calls at lines 217--219).
\<close>

record splat =
  sp_x :: real
  sp_y :: real
  sp_r :: real
  sp_g :: real
  sp_b :: real

text \<open>Lines 201--215, from the input vector of the system to the splat.\<close>

definition splat_of :: "polysys \<Rightarrow> real list \<Rightarrow> real \<Rightarrow> real \<times> real \<times> real \<Rightarrow> splat" where
  "splat_of sys_y inp weight rgb_ll =
     (let out = evaluate sys_y inp;
          out0 = out ! 0 * sensor_scaling + real (sensor_xres div 2);
          out1 = out ! 1 * sensor_scaling + real (sensor_yres div 2);
          lam = lambert_value (out ! 2)
      in \<lparr>sp_x = out0, sp_y = out1,
          sp_r = lam * weight * fst rgb_ll,
          sp_g = lam * weight * fst (snd rgb_ll),
          sp_b = lam * weight * snd (snd rgb_ll)\<rparr>)"

text \<open>
  Lines 191--215: the aperture point by rejection, the jitter of the world position,
  the evaluation. \<open>None\<close> when the rejection loop does not return.
\<close>

definition eval_sample ::
    "polysys \<Rightarrow> real \<Rightarrow> real \<Rightarrow> real \<Rightarrow> real \<times> real \<times> real \<Rightarrow> nat stream \<Rightarrow> (splat \<times> nat stream) option" where
  "eval_sample sys_y xw psize weight rgb_ll s =
     (case sample_aperture r_pupil s of
        None \<Rightarrow> None
      | Some (x_ap, y_ap, s1) \<Rightarrow>
          (case unit_rand s1 of (u, s2) \<Rightarrow>
             Some (splat_of sys_y [xw + psize * u, x_ap, y_ap] weight rgb_ll, s2)))"

text \<open>Lines 217--219: the three accumulating writes.\<close>

definition splat_sample :: "splat \<Rightarrow> cimg \<Rightarrow> cimg" where
  "splat_sample e img =
     set_linear_atXY (sp_b e) (sp_x e) (sp_y e) 2 True
       (set_linear_atXY (sp_g e) (sp_x e) (sp_y e) 1 True
          (set_linear_atXY (sp_r e) (sp_x e) (sp_y e) 0 True img))"

text \<open>
  A counted loop whose body may not return. The state of the renderer is the random
  source together with the output image.
\<close>

fun for_each :: "nat list \<Rightarrow> (nat \<Rightarrow> 's \<Rightarrow> 's option) \<Rightarrow> 's \<Rightarrow> 's option" where
  "for_each [] body st = Some st"
| "for_each (k # ks) body st =
     (case body k st of None \<Rightarrow> None | Some st' \<Rightarrow> for_each ks body st')"

text \<open>The body of the loop over the samples, lines 189--221.\<close>

definition one_sample ::
    "polysys \<Rightarrow> real \<Rightarrow> real \<Rightarrow> real \<Rightarrow> real \<times> real \<times> real
      \<Rightarrow> nat stream \<times> cimg \<Rightarrow> (nat stream \<times> cimg) option" where
  "one_sample sys_y xw psize weight rgb_ll st =
     (case eval_sample sys_y xw psize weight rgb_ll (fst st) of
        None \<Rightarrow> None
      | Some (e, s') \<Rightarrow> Some (s', splat_sample e (snd st)))"

text \<open>The body of the loop over the columns, lines 171--222.\<close>

definition render_pixel ::
    "collab \<Rightarrow> nat \<Rightarrow> nat \<Rightarrow> nat \<Rightarrow> nat stream \<times> cimg \<Rightarrow> (nat stream \<times> cimg) option" where
  "render_pixel C ll j i st =
     (let xw = x_world i (cwidth (img_in C)) sensor_width (magnification C);
          p = L_in C ll j i;
          n = num_samples p sample_mul
      in for_each [0..<nat n]
           (\<lambda>sample. one_sample (system_y C ll j) xw (pixel_size C) (sample_weight p n) (rgb C ll))
           st)"

text \<open>The loops over the columns, the rows and the spectral bins, lines 150--224.\<close>

definition render_row ::
    "collab \<Rightarrow> nat \<Rightarrow> nat \<Rightarrow> nat stream \<times> cimg \<Rightarrow> (nat stream \<times> cimg) option" where
  "render_row C ll j st = for_each [0..<cwidth (img_in C)] (render_pixel C ll j) st"

definition render_bin ::
    "collab \<Rightarrow> nat \<Rightarrow> nat stream \<times> cimg \<Rightarrow> (nat stream \<times> cimg) option" where
  "render_bin C ll st = for_each [0..<cheight (img_in C)] (render_row C ll) st"

definition monte_carlo :: "collab \<Rightarrow> nat stream \<times> cimg \<Rightarrow> (nat stream \<times> cimg) option" where
  "monte_carlo C st = for_each [0..<num_lambdas] (render_bin C) st"

text \<open>
  The rendering of \<^verbatim>\<open>main\<close>, lines 116 and 150--224: the output image starts from
  zero and every sample is splatted into it.
\<close>

definition img_out_init :: cimg where
  "img_out_init = new_img sensor_xres sensor_yres 3 0"

definition render :: "collab \<Rightarrow> nat stream \<Rightarrow> (nat stream \<times> cimg) option" where
  "render C s = monte_carlo C (s, img_out_init)"

subsection \<open>The samples of the pass\<close>






text \<open>What a splat deposits in channel \<open>c\<close> of the pixel \<open>(X, Y)\<close>.\<close>

definition channel_value :: "splat \<Rightarrow> nat \<Rightarrow> real" where
  "channel_value e c = (if c = 0 then sp_r e else if c = 1 then sp_g e else sp_b e)"

definition deposit :: "nat \<Rightarrow> nat \<Rightarrow> nat \<Rightarrow> splat \<Rightarrow> real" where
  "deposit X Y c e = tap_weight (sp_x e) (sp_y e) X Y * channel_value e c"

text \<open>
  A random source is fair for the aperture when, from every point on, some later
  candidate of the rejection loop passes its test.
\<close>

definition fair :: "real \<Rightarrow> nat stream \<Rightarrow> bool" where
  "fair r s \<longleftrightarrow> (\<forall>n. \<exists>k. accepted r (sdrop (n + 2 * k) s))"

subsection \<open>Test data\<close>

text \<open>A random source that returns the middle of its range for ever.\<close>

definition demo_rand :: "nat stream" where
  "demo_rand = sconst 1073741823"

text \<open>
  A random source whose first two numbers give a candidate at the rim of the aperture,
  and one that alternates between two numbers for ever.
\<close>

definition rim_rand :: "nat stream" where
  "rim_rand = 577090037 ## 2025717957 ## demo_rand"

definition alt_rand :: "nat stream" where
  "alt_rand = cycle [2147483607, 1074017142]"

text \<open>
  Collaborators for a black input image of one pixel: the lens is \<open>x\<close> at 500 nm and
  \<open>2 * x\<close> elsewhere in its first output, and the spectral power of every pixel is
  \<open>- 1/4\<close>.
\<close>

definition demo_collab :: collab where
  "demo_collab = \<lparr>img_in = new_img 1 1 3 0, magnification = 1,
      system_at = (\<lambda>l. if l = 500 then [[(1, [1, 0, 0, 0])], [], [], []]
                        else [[(2, [1, 0, 0, 0])], [], [], []]),
      spectrum_rgb_to_p = (\<lambda>l c. - 1 / 4),
      spectrum_p_to_rgb = (\<lambda>l p. (p, p, p))\<rparr>"

text \<open>
  Collaborators for an input image of one pixel of spectral power \<open>- 1/4\<close> and a lens
  that sends every ray to the centre of the sensor, along the axis.
\<close>

definition demo_scene :: collab where
  "demo_scene = \<lparr>img_in = new_img 1 1 3 0, magnification = 1,
      system_at = (\<lambda>l. [[], [], [], []]),
      spectrum_rgb_to_p = (\<lambda>l c. - 1 / 4),
      spectrum_p_to_rgb = (\<lambda>l p. (p, p, p))\<rparr>"

text \<open>
  Collaborators with a lens whose second output is the world-y coordinate, for an input
  image of \<open>n \<times> n\<close> pixels.
\<close>

definition row_scene :: "nat \<Rightarrow> collab" where
  "row_scene n = \<lparr>img_in = new_img n n 3 0, magnification = 1,
      system_at = (\<lambda>l. [[], [(1, [0, 1, 0, 0])], [], []]),
      spectrum_rgb_to_p = (\<lambda>l c. 0),
      spectrum_p_to_rgb = (\<lambda>l p. (p, p, p))\<rparr>"

text \<open>
  A system of four equations in five variables whose third equation depends on the
  wavelength: \<open>x\<^sub>2 + x\<^sub>2 * l\<close>.
\<close>

definition demo_sys :: polysys where
  "demo_sys = [[(1, [1, 0, 0, 0, 0])], [(1, [0, 1, 0, 0, 0])],
               [(1, [0, 0, 1, 0, 0]), (1, [0, 0, 1, 0, 1])], [(1, [0, 0, 0, 1, 0])]]"

text \<open>Two images of one pixel: one with a positive maximum, one with negative channels only.\<close>

definition demo_pixel :: cimg where
  "demo_pixel = \<lparr>cwidth = 1, cheight = 1, cspectrum = 3, cdata = [1, - 1, 0]\<rparr>"

definition dark_pixel :: cimg where
  "dark_pixel = \<lparr>cwidth = 1, cheight = 1, cspectrum = 3, cdata = [- 1, - 1, - 1]\<rparr>"


section \<open>Properties\<close>

subsection \<open>Rounding\<close>

lemma round_even_cases: "round_even y = \<lfloor>y\<rfloor> \<or> round_even y = \<lfloor>y\<rfloor> + 1"
  by (simp add: round_even_def Let_def)

lemma round_even_error: "\<bar>of_int (round_even y) - y\<bar> \<le> 1/2"
proof -
  have "of_int \<lfloor>y\<rfloor> \<le> y" "y < of_int \<lfloor>y\<rfloor> + 1" by linarith+
  then show ?thesis by (auto simp: round_even_def Let_def)
qed

lemma round_even_of_int [simp]: "round_even (of_int k) = k"
  by (simp add: round_even_def)

lemma round_even_mono: "x \<le> y \<Longrightarrow> round_even x \<le> round_even y"
proof -
  assume xy: "x \<le> y"
  then have fl: "\<lfloor>x\<rfloor> \<le> \<lfloor>y\<rfloor>" by (rule floor_mono)
  show ?thesis
  proof (cases "\<lfloor>x\<rfloor> = \<lfloor>y\<rfloor>")
    case True
    with xy show ?thesis by (auto simp: round_even_def Let_def)
  next
    case False
    with fl have "\<lfloor>x\<rfloor> + 1 \<le> \<lfloor>y\<rfloor>" by simp
    with round_even_cases [of x] round_even_cases [of y] show ?thesis by auto
  qed
qed

lemma round_even_ge: "of_int k \<le> y \<Longrightarrow> k \<le> round_even y"
  using round_even_mono [of "of_int k" y] by simp

lemma round_even_le: "y \<le> of_int k \<Longrightarrow> round_even y \<le> k"
  using round_even_mono [of y "of_int k"] by simp

lemma two_powr: "(2::real) powr real_of_int n = 2 powi n"
  by (rule powr_real_of_int') simp_all

lemma fexp_iff:
  assumes "x \<noteq> 0"
  shows "fexp x = k \<longleftrightarrow> 2 powi k \<le> \<bar>x\<bar> \<and> \<bar>x\<bar> < 2 powi (k + 1)"
proof -
  have "\<lfloor>log 2 \<bar>x\<bar>\<rfloor> = k \<longleftrightarrow> 2 powr real_of_int k \<le> \<bar>x\<bar> \<and> \<bar>x\<bar> < 2 powr real_of_int (k + 1)"
    using floor_log_eq_powr_iff [of "\<bar>x\<bar>" 2 k] assms by simp
  then show ?thesis unfolding two_powr fexp_def .
qed

lemma fexp_bounds:
  assumes "x \<noteq> 0"
  shows "2 powi fexp x \<le> \<bar>x\<bar>" "\<bar>x\<bar> < 2 powi (fexp x + 1)"
  using fexp_iff [OF assms, of "fexp x"] by simp_all

lemma fexp_eq:
  assumes "2 powi k \<le> \<bar>x\<bar>" "\<bar>x\<bar> < 2 powi (k + 1)"
  shows "fexp x = k"
proof -
  have "(0::real) < 2 powi k" by simp
  with assms(1) have "0 < \<bar>x\<bar>" by linarith
  then have "x \<noteq> 0" by simp
  from fexp_iff [OF this, of k] assms show ?thesis by simp
qed

lemma fround_eval:
  assumes "2 powi k \<le> \<bar>x\<bar>" "\<bar>x\<bar> < 2 powi (k + 1)"
  shows "fround p x = of_int (round_even (x / 2 powi (k - int p + 1))) * 2 powi (k - int p + 1)"
proof -
  have "(0::real) < 2 powi k" by simp
  with assms(1) have "0 < \<bar>x\<bar>" by linarith
  then have "x \<noteq> 0" by simp
  then show ?thesis by (simp add: fround_def fexp_eq [OF assms])
qed

lemma fround_0 [simp]: "fround p 0 = 0"
  by (simp add: fround_def)

lemma fround_error: "\<bar>fround p x - x\<bar> \<le> \<bar>x\<bar> / 2 ^ p"
proof (cases "x = 0")
  case True
  then show ?thesis by simp
next
  case False
  define u :: real where "u = 2 powi (fexp x - int p + 1)"
  have u: "0 < u" by (simp add: u_def)
  have "fround p x = of_int (round_even (x / u)) * u"
    using False by (simp add: fround_def u_def)
  then have "fround p x - x = (of_int (round_even (x / u)) - x / u) * u"
    using u by (simp add: algebra_simps)
  then have "\<bar>fround p x - x\<bar> = \<bar>of_int (round_even (x / u)) - x / u\<bar> * u"
    using u by (simp add: abs_mult)
  also have "\<dots> \<le> 1/2 * u"
    using round_even_error [of "x / u"] u by (intro mult_right_mono) simp_all
  also have "1/2 * u = 2 powi fexp x / 2 ^ p"
    by (simp add: u_def power_int_diff power_int_add)
  also have "\<dots> \<le> \<bar>x\<bar> / 2 ^ p"
    using fexp_bounds(1) [OF False] by (simp add: divide_right_mono)
  finally show ?thesis .
qed

lemma two_powi_less: "(2::real) powi a < 2 powi b \<Longrightarrow> a < b"
  using power_int_increasing [of b a "2::real"] by (cases "a < b") auto

lemma fround_fixed:
  assumes "\<bar>k\<bar> < 2 ^ p"
  shows "fround p (of_int k * 2 powi j) = of_int k * 2 powi j"
proof (cases "k = 0")
  case True
  then show ?thesis by simp
next
  case False
  define x :: real where "x = of_int k * 2 powi j"
  have x0: "x \<noteq> 0" using False by (simp add: x_def)
  define e where "e = fexp x"
  have "\<bar>x\<bar> = of_int \<bar>k\<bar> * 2 powi j" by (simp add: x_def abs_mult)
  also have "\<dots> < 2 ^ p * 2 powi j"
  proof -
    have "(of_int \<bar>k\<bar> :: real) < of_int (2 ^ p)" using assms by (subst of_int_less_iff)
    then show ?thesis by simp
  qed
  also have "\<dots> = 2 powi (int p + j)" by (simp add: power_int_add)
  finally have "\<bar>x\<bar> < 2 powi (int p + j)" .
  with fexp_bounds(1) [OF x0] have "(2::real) powi e < 2 powi (int p + j)" by (simp add: e_def)
  then have "e < int p + j" by (rule two_powi_less)
  then obtain n where n: "j - (e - int p + 1) = int n" using nonneg_int_cases [of "j - (e - int p + 1)"] by auto
  have "x / 2 powi (e - int p + 1) = of_int k * 2 powi (j - (e - int p + 1))"
    by (simp add: x_def power_int_diff)
  also have "\<dots> = of_int (k * 2 ^ n)" unfolding n by simp
  finally have "round_even (x / 2 powi (e - int p + 1)) = k * 2 ^ n"
    by (simp only: round_even_of_int)
  then have "fround p x = of_int (k * 2 ^ n) * 2 powi (e - int p + 1)"
    using x0 by (simp add: fround_def e_def)
  also have "\<dots> = of_int k * (2 powi (int n) * 2 powi (e - int p + 1))" by simp
  also have "2 powi (int n) * 2 powi (e - int p + 1) = (2::real) powi j"
    unfolding n [symmetric] by (simp flip: power_int_add)
  finally show ?thesis by (simp add: x_def)
qed

lemma fround_mantissa:
  assumes "x \<noteq> 0"
  shows "\<bar>round_even (x / 2 powi (fexp x - int p + 1))\<bar> \<le> 2 ^ p"
proof -
  define u :: real where "u = 2 powi (fexp x - int p + 1)"
  have u: "0 < u" by (simp add: u_def)
  have "\<bar>x\<bar> < 2 powi (fexp x + 1)" by (rule fexp_bounds(2) [OF assms])
  also have "\<dots> = 2 ^ p * u" by (simp add: u_def flip: power_int_add power_int_of_nat)
  finally have "\<bar>x\<bar> / u < 2 ^ p" using u by (simp add: field_simps)
  then have "\<bar>x / u\<bar> < 2 ^ p" using u by simp
  then have "x / u \<le> 2 ^ p" "- (2 ^ p) \<le> x / u" by linarith+
  then have "x / u \<le> of_int (2 ^ p)" "of_int (- (2 ^ p)) \<le> x / u" by simp_all
  from round_even_le [OF this(1)] round_even_ge [OF this(2)]
  show ?thesis by (simp add: u_def)
qed

lemma fround_representable:
  assumes "0 < p"
  shows "\<exists>k j. \<bar>k\<bar> < 2 ^ p \<and> fround p x = of_int k * 2 powi j"
proof (cases "x = 0")
  case True
  then show ?thesis by (intro exI [of _ 0]) simp
next
  case False
  define u where "u = fexp x - int p + 1"
  define k where "k = round_even (x / 2 powi u)"
  have fr: "fround p x = of_int k * 2 powi u" using False by (simp add: fround_def k_def u_def)
  have kb: "\<bar>k\<bar> \<le> 2 ^ p" using fround_mantissa [OF False, of p] by (simp add: k_def u_def)
  show ?thesis
  proof (cases "\<bar>k\<bar> < 2 ^ p")
    case True
    with fr show ?thesis by blast
  next
    case False
    with kb have "\<bar>k\<bar> = 2 ^ p" by simp
    then consider "k = 2 ^ p" | "k = - (2 ^ p)" by (auto simp: abs_if split: if_splits)
    then show ?thesis
    proof cases
      case 1
      have "fround p x = of_int 1 * 2 powi (int p + u)"
        unfolding fr 1 by (simp add: power_int_add)
      moreover have "\<bar>1::int\<bar> < 2 ^ p" using assms by simp
      ultimately show ?thesis by blast
    next
      case 2
      have "fround p x = of_int (- 1) * 2 powi (int p + u)"
        unfolding fr 2 by (simp add: power_int_add)
      moreover have "\<bar>- 1::int\<bar> < 2 ^ p" using assms by simp
      ultimately show ?thesis by blast
    qed
  qed
qed

lemma fround_idem: "0 < p \<Longrightarrow> fround p (fround p x) = fround p x"
  using fround_representable [of p x] fround_fixed [of _ p] by force

lemma fround_lift:
  assumes "0 < p" "p \<le> q" "fround p x = x"
  shows "fround q x = x"
proof -
  from fround_representable [OF assms(1), of x] assms(3)
  obtain k j where k: "\<bar>k\<bar> < 2 ^ p" and x: "x = of_int k * 2 powi j" by auto
  have "(2::int) ^ p \<le> 2 ^ q" using assms(2) by (simp add: power_increasing)
  with k have "\<bar>k\<bar> < 2 ^ q" by linarith
  from fround_fixed [OF this, of j] show ?thesis by (simp add: x)
qed

lemma fround_pos_bounds:
  assumes "0 < p" "0 < x"
  shows "2 powi fexp x \<le> fround p x" "fround p x \<le> 2 powi (fexp x + 1)"
proof -
  define u :: real where "u = 2 powi (fexp x - int p + 1)"
  have u: "0 < u" by (simp add: u_def)
  have x0: "x \<noteq> 0" using assms(2) by simp
  have fr: "fround p x = of_int (round_even (x / u)) * u" using x0 by (simp add: fround_def u_def)
  obtain m where m: "p = Suc m" using assms(1) by (cases p) auto
  have lo: "2 powi fexp x = of_int (2 ^ m) * u"
    by (simp add: u_def m flip: power_int_add power_int_of_nat)
  have hi: "2 powi (fexp x + 1) = of_int (2 ^ p) * u"
    by (simp add: u_def flip: power_int_add power_int_of_nat)
  have "of_int (2 ^ m) * u \<le> x" using fexp_bounds(1) [OF x0] assms(2) lo by simp
  then have "of_int (2 ^ m) \<le> x / u" using u by (simp add: field_simps)
  from round_even_ge [OF this] have "(of_int (2 ^ m) :: real) \<le> of_int (round_even (x / u))"
    by (subst of_int_le_iff)
  then show "2 powi fexp x \<le> fround p x" unfolding lo fr using u by (intro mult_right_mono) simp_all
  have "x \<le> of_int (2 ^ p) * u" using fexp_bounds(2) [OF x0] assms(2) hi by simp
  then have "x / u \<le> of_int (2 ^ p)" using u by (simp add: field_simps)
  from round_even_le [OF this] have "(of_int (round_even (x / u)) :: real) \<le> of_int (2 ^ p)"
    by (subst of_int_le_iff)
  then show "fround p x \<le> 2 powi (fexp x + 1)" unfolding hi fr using u by (intro mult_right_mono) simp_all
qed

lemma fround_neg_bounds:
  assumes "0 < p" "x < 0"
  shows "fround p x \<le> - (2 powi fexp x)" "- (2 powi (fexp x + 1)) \<le> fround p x"
proof -
  define u :: real where "u = 2 powi (fexp x - int p + 1)"
  have u: "0 < u" by (simp add: u_def)
  have x0: "x \<noteq> 0" using assms(2) by simp
  have fr: "fround p x = of_int (round_even (x / u)) * u" using x0 by (simp add: fround_def u_def)
  obtain m where m: "p = Suc m" using assms(1) by (cases p) auto
  have lo: "2 powi fexp x = of_int (2 ^ m) * u"
    by (simp add: u_def m flip: power_int_add power_int_of_nat)
  have hi: "2 powi (fexp x + 1) = of_int (2 ^ p) * u"
    by (simp add: u_def flip: power_int_add power_int_of_nat)
  have "x \<le> of_int (- (2 ^ m)) * u" using fexp_bounds(1) [OF x0] assms(2) lo by simp
  then have "x / u \<le> of_int (- (2 ^ m))" using u by (simp add: field_simps)
  from round_even_le [OF this] have "(of_int (round_even (x / u)) :: real) \<le> of_int (- (2 ^ m))"
    by (subst of_int_le_iff)
  then have "of_int (round_even (x / u)) * u \<le> of_int (- (2 ^ m)) * u"
    using u by (intro mult_right_mono) simp_all
  then show "fround p x \<le> - (2 powi fexp x)" unfolding lo fr by simp
  have "of_int (- (2 ^ p)) * u \<le> x" using fexp_bounds(2) [OF x0] assms(2) hi by simp
  then have "of_int (- (2 ^ p)) \<le> x / u" using u by (simp add: field_simps)
  from round_even_ge [OF this] have "(of_int (- (2 ^ p)) :: real) \<le> of_int (round_even (x / u))"
    by (subst of_int_le_iff)
  then have "of_int (- (2 ^ p)) * u \<le> of_int (round_even (x / u)) * u"
    using u by (intro mult_right_mono) simp_all
  then show "- (2 powi (fexp x + 1)) \<le> fround p x" unfolding hi fr by simp
qed

lemma fexp_mono:
  assumes "x \<noteq> 0" "\<bar>x\<bar> \<le> \<bar>y\<bar>"
  shows "fexp x \<le> fexp y"
proof -
  have "0 < \<bar>x\<bar>" using assms(1) by simp
  then have "log 2 \<bar>x\<bar> \<le> log 2 \<bar>y\<bar>" using assms(2) by simp
  then show ?thesis unfolding fexp_def by (rule floor_mono)
qed

lemma fround_mono:
  assumes p: "0 < p" and xy: "x \<le> y"
  shows "fround p x \<le> fround p y"
proof -
  have pos: "0 < fround p z" if "0 < z" for z
  proof -
    have "(0::real) < 2 powi fexp z" by simp
    with fround_pos_bounds(1) [OF p that] show ?thesis by linarith
  qed
  have neg: "fround p z < 0" if "z < 0" for z
  proof -
    have "(0::real) < 2 powi fexp z" by simp
    with fround_neg_bounds(1) [OF p that] show ?thesis by linarith
  qed
  consider "x = 0" | "y = 0" "x \<noteq> 0" | "x < 0" "0 < y" | "0 < x" | "y < 0"
    using xy by linarith
  then show ?thesis
  proof cases
    case 1
    then show ?thesis using xy pos [of y] by (cases "y = 0") (simp_all add: less_imp_le)
  next
    case 2
    then show ?thesis using xy neg [of x] by (simp add: less_imp_le)
  next
    case 3
    then show ?thesis using pos [of y] neg [of x] by linarith
  next
    case 4
    then have y: "0 < y" using xy by linarith
    have ee: "fexp x \<le> fexp y" using 4 y xy by (intro fexp_mono) simp_all
    show ?thesis
    proof (cases "fexp x = fexp y")
      case True
      define u :: real where "u = 2 powi (fexp y - int p + 1)"
      have u: "0 < u" by (simp add: u_def)
      have "x / u \<le> y / u" using xy u by (simp add: divide_right_mono)
      from round_even_mono [OF this]
      have "(of_int (round_even (x / u)) :: real) \<le> of_int (round_even (y / u))"
        by (subst of_int_le_iff)
      then have "of_int (round_even (x / u)) * u \<le> of_int (round_even (y / u)) * u"
        using u by (intro mult_right_mono) simp_all
      then show ?thesis using 4 y True by (simp add: fround_def u_def)
    next
      case False
      with ee have "fexp x + 1 \<le> fexp y" by simp
      then have "(2::real) powi (fexp x + 1) \<le> 2 powi fexp y" by (intro power_int_increasing) simp_all
      with fround_pos_bounds(2) [OF p 4] fround_pos_bounds(1) [OF p y] show ?thesis by linarith
    qed
  next
    case 5
    then have x: "x < 0" using xy by linarith
    have ee: "fexp y \<le> fexp x" using 5 x xy by (intro fexp_mono) simp_all
    show ?thesis
    proof (cases "fexp x = fexp y")
      case True
      define u :: real where "u = 2 powi (fexp y - int p + 1)"
      have u: "0 < u" by (simp add: u_def)
      have "x / u \<le> y / u" using xy u by (simp add: divide_right_mono)
      from round_even_mono [OF this]
      have "(of_int (round_even (x / u)) :: real) \<le> of_int (round_even (y / u))"
        by (subst of_int_le_iff)
      then have "of_int (round_even (x / u)) * u \<le> of_int (round_even (y / u)) * u"
        using u by (intro mult_right_mono) simp_all
      then show ?thesis using 5 x True by (simp add: fround_def u_def)
    next
      case False
      with ee have "fexp y + 1 \<le> fexp x" by simp
      then have "(2::real) powi (fexp y + 1) \<le> 2 powi fexp x" by (intro power_int_increasing) simp_all
      with fround_neg_bounds(1) [OF p x] fround_neg_bounds(2) [OF p 5] show ?thesis by linarith
    qed
  qed
qed


subsection \<open>Single and double precision\<close>

lemma c_float_error: "\<bar>c_float x - x\<bar> \<le> \<bar>x\<bar> / 2 ^ 24"
  unfolding c_float_def by (rule fround_error)

lemma c_double_error: "\<bar>c_double x - x\<bar> \<le> \<bar>x\<bar> / 2 ^ 53"
  unfolding c_double_def by (rule fround_error)

lemma c_float_mono: "x \<le> y \<Longrightarrow> c_float x \<le> c_float y"
  unfolding c_float_def by (rule fround_mono) simp_all

lemma c_double_mono: "x \<le> y \<Longrightarrow> c_double x \<le> c_double y"
  unfolding c_double_def by (rule fround_mono) simp_all

lemma c_float_0 [simp]: "c_float 0 = 0"
  by (simp add: c_float_def)

lemma c_double_0 [simp]: "c_double 0 = 0"
  by (simp add: c_double_def)

lemma c_float_idem [simp]: "c_float (c_float x) = c_float x"
  unfolding c_float_def by (rule fround_idem) simp

lemma c_float_int: "\<bar>k\<bar> < 16777216 \<Longrightarrow> c_float (of_int k * 2 powi j) = of_int k * 2 powi j"
  unfolding c_float_def by (rule fround_fixed) simp

lemma c_double_int: "\<bar>k\<bar> < 9007199254740992 \<Longrightarrow> c_double (of_int k * 2 powi j) = of_int k * 2 powi j"
  unfolding c_double_def by (rule fround_fixed) simp

lemma c_float_1 [simp]: "c_float 1 = 1"
  using c_float_int [of 1 0] by simp

lemma c_double_1 [simp]: "c_double 1 = 1"
  using c_double_int [of 1 0] by simp

lemma c_float_nonneg: "0 \<le> x \<Longrightarrow> 0 \<le> c_float x"
  using c_float_mono [of 0 x] by simp

lemma c_float_nonpos: "x \<le> 0 \<Longrightarrow> c_float x \<le> 0"
  using c_float_mono [of x 0] by simp

lemma c_double_of_float: "c_float x = x \<Longrightarrow> c_double x = x"
  unfolding c_float_def c_double_def by (rule fround_lift [of 24 53]) simp_all

lemma fround_neg_fixed:
  assumes "0 < p" "fround p x = x"
  shows "fround p (- x) = - x"
proof -
  from fround_representable [OF assms(1), of x] assms(2)
  obtain k j where k: "\<bar>k\<bar> < 2 ^ p" and x: "x = of_int k * 2 powi j" by auto
  have "\<bar>- k\<bar> < 2 ^ p" using k by simp
  from fround_fixed [OF this, of j] show ?thesis by (simp add: x)
qed

text \<open>For non-negative numbers the relative error reads as two bounds.\<close>

lemma c_float_lower:
  assumes "0 \<le> x"
  shows "(1 - 1 / 2 ^ 24) * x \<le> c_float x"
proof -
  have "\<bar>c_float x - x\<bar> \<le> x / 2 ^ 24" using c_float_error [of x] assms by simp
  then have "x - x / 2 ^ 24 \<le> c_float x" by linarith
  then show ?thesis by (simp add: algebra_simps)
qed

lemma c_float_upper:
  assumes "0 \<le> x"
  shows "c_float x \<le> (1 + 1 / 2 ^ 24) * x"
proof -
  have "\<bar>c_float x - x\<bar> \<le> x / 2 ^ 24" using c_float_error [of x] assms by simp
  then have "c_float x \<le> x + x / 2 ^ 24" by linarith
  then show ?thesis by (simp add: algebra_simps)
qed

subsection \<open>Sample count and weight\<close>

lemma trunc_real_max: "max 1 (trunc_real x) = max 1 \<lfloor>x\<rfloor>"
proof (cases "0 \<le> x")
  case True
  then show ?thesis by (simp add: trunc_real_def)
next
  case False
  then have "\<lceil>x\<rceil> \<le> 0" and "\<lfloor>x\<rfloor> \<le> 0"
    by (simp_all add: ceiling_le_iff floor_le_iff)
  with False show ?thesis by (simp add: trunc_real_def)
qed

text \<open>The cast under the maximum with 1: the floor below \<open>2 ^ 31\<close>, and 1 from there on.\<close>

lemma max_float_to_int:
  "max 1 (float_to_int y) = (if 2147483648 \<le> y then 1 else max 1 \<lfloor>y\<rfloor>)"
proof (cases "2147483648 \<le> y")
  case True
  then have "2147483648 \<le> \<lfloor>y\<rfloor>" by (simp add: le_floor_iff)
  with True show ?thesis by (simp add: float_to_int_def trunc_real_def Let_def)
next
  case False
  then have up: "\<lfloor>y\<rfloor> \<le> 2147483647" by (simp add: floor_le_iff)
  show ?thesis
  proof (cases "0 \<le> y")
    case True
    then have "0 \<le> \<lfloor>y\<rfloor>" by simp
    with True up False show ?thesis by (simp add: float_to_int_def trunc_real_def Let_def)
  next
    case neg: False
    then have "\<lceil>y\<rceil> \<le> 0" "\<lfloor>y\<rfloor> \<le> 0" by (simp_all add: ceiling_le_iff floor_le_iff)
    with neg False show ?thesis by (simp add: float_to_int_def trunc_real_def Let_def)
  qed
qed

lemma num_samples_ge_1: "1 \<le> num_samples p m"
  by (simp add: num_samples_def)

text \<open>Weight times count is the power up to two roundings.\<close>

lemma weight_times_count:
  assumes "1 \<le> n"
  shows "\<bar>sample_weight p n * of_int n - p\<bar> \<le> \<bar>p\<bar> / 2 ^ 22"
proof -
  define N :: real where "N = of_int n"
  define fN where "fN = c_float N"
  define W where "W = c_float (p / fN)"
  define eps :: real where "eps = 1 / 2 ^ 24"
  have N1: "1 \<le> N" using assms by (simp add: N_def)
  have eN: "\<bar>fN - N\<bar> \<le> N * eps" using c_float_error [of N] N1 by (simp add: fN_def eps_def)
  have "eps \<le> 1/2" by (simp add: eps_def)
  then have "N * eps \<le> N * (1/2)" using N1 by (intro mult_left_mono) simp_all
  with eN have half: "N \<le> 2 * fN" by linarith
  then have fpos: "0 < fN" using N1 by linarith
  define rho where "rho = N / fN"
  have rho: "0 \<le> rho" "rho \<le> 2" using half fpos N1 by (simp_all add: rho_def field_simps)
  have eW: "\<bar>W - p / fN\<bar> \<le> \<bar>p\<bar> / fN * eps"
    using c_float_error [of "p / fN"] fpos by (simp add: W_def eps_def)
  have "W * N - p = (W - p / fN) * N + p * ((N - fN) / fN)"
    using fpos by (simp add: field_simps)
  then have "\<bar>W * N - p\<bar> \<le> \<bar>W - p / fN\<bar> * N + \<bar>p\<bar> * (\<bar>N - fN\<bar> / fN)"
    using N1 fpos by (simp add: abs_mult abs_triangle_ineq [THEN order_trans])
  also have "\<bar>W - p / fN\<bar> * N \<le> \<bar>p\<bar> / fN * eps * N"
    using eW N1 by (intro mult_right_mono) simp_all
  also have "\<bar>p\<bar> / fN * eps * N = \<bar>p\<bar> * eps * rho" by (simp add: rho_def)
  also have "\<bar>p\<bar> * (\<bar>N - fN\<bar> / fN) \<le> \<bar>p\<bar> * (N * eps / fN)"
    using eN fpos by (intro mult_left_mono divide_right_mono) (simp_all add: abs_minus_commute)
  also have "\<bar>p\<bar> * (N * eps / fN) = \<bar>p\<bar> * eps * rho" by (simp add: rho_def)
  finally have "\<bar>W * N - p\<bar> \<le> \<bar>p\<bar> * eps * rho + \<bar>p\<bar> * eps * rho" by simp
  also have "\<bar>p\<bar> * eps * rho \<le> \<bar>p\<bar> * eps * 2"
    using rho by (intro mult_left_mono) (simp_all add: eps_def)
  finally have "\<bar>W * N - p\<bar> \<le> \<bar>p\<bar> * eps * 4" by (simp add: algebra_simps)
  then show ?thesis by (simp add: W_def fN_def N_def sample_weight_def eps_def)
qed

text \<open>
  C3, as the program has it. The product of the spectral power and the multiplier is
  rounded to a \<^verbatim>\<open>float\<close> before the cast: the number of samples is the floor of the
  rounded product, and at least 1, as long as the rounded product is below \<open>2\<^sup>3\<^sup>1\<close>;
  from there on the cast gives the smallest \<^verbatim>\<open>int\<close> and the number of samples is 1.
  The weight of a sample is the spectral power divided by the number of samples, both
  the number and the quotient rounded to a \<^verbatim>\<open>float\<close>; the weight times the number of
  samples is the spectral power up to the relative error \<open>2\<^sup>-\<^sup>2\<^sup>2\<close>.
\<close>

theorem num_samples_rounded:
  "num_samples p m = (if 2147483648 \<le> c_float (p * m) then 1 else max 1 \<lfloor>c_float (p * m)\<rfloor>)
   \<and> 1 \<le> num_samples p m
   \<and> sample_weight p (num_samples p m) = c_float (p / c_float (of_int (num_samples p m)))
   \<and> \<bar>sample_weight p (num_samples p m) * of_int (num_samples p m) - p\<bar> \<le> \<bar>p\<bar> / 2 ^ 22"
  using weight_times_count [OF num_samples_ge_1, of p p m] max_float_to_int [of "c_float (p * m)"]
  by (simp add: num_samples_def sample_weight_def)

text \<open>
  Three products in single precision: \<open>1/256 * 1000\<close> is exact; the \<^verbatim>\<open>float\<close> nearest
  to 0.005, which is \<open>5368709 / 2\<^sup>3\<^sup>0\<close>, times 1000 is rounded up to 5; and
  \<open>3000000 * 1000\<close> is exact and above the range of \<^verbatim>\<open>int\<close>.
\<close>

lemma float_product_exact: "c_float (1 / 256 * 1000) = 125 / 32"
  using c_float_int [of 125 "- 5"] by simp

lemma float_product_example: "c_float (5368709 / 1073741824 * 1000) = 5"
  unfolding c_float_def using fround_eval [of 2 "5368709 / 1073741824 * 1000" 24]
  by (simp add: round_even_def Let_def)

lemma float_product_large: "c_float (3000000 * 1000) = 3000000000"
  using c_float_int [of 11718750 8] by simp

text \<open>
  A pixel of spectral power \<open>1/256\<close> draws 3 samples, and one of the spectral power
  nearest to 0.005 draws 5.
\<close>

theorem num_samples_rounded_witness:
  "num_samples (1 / 256) 1000 = 3 \<and> num_samples (5368709 / 1073741824) 1000 = 5"
proof -
  have "num_samples (1 / 256) 1000 = 3"
    using conjunct1 [OF num_samples_rounded [of "1 / 256" 1000]]
    unfolding float_product_exact by simp
  moreover have "num_samples (5368709 / 1073741824) 1000 = 5"
    using conjunct1 [OF num_samples_rounded [of "5368709 / 1073741824" 1000]]
    unfolding float_product_example by simp
  ultimately show ?thesis by simp
qed

text \<open>
  C3 as stated fails: a pixel of spectral power 3000000 draws one sample where
  \<open>max(1, floor(p * m))\<close> is 3000000000, and a pixel of the spectral power nearest to
  0.005 draws 5 samples where \<open>max(1, floor(p * m))\<close> is 4.
\<close>

theorem num_samples_not_floor:
  "num_samples 3000000 1000 = 1
   \<and> max 1 \<lfloor>(3000000 :: real) * 1000\<rfloor> = 3000000000
   \<and> num_samples (5368709 / 1073741824) 1000 = 5
   \<and> max 1 \<lfloor>(5368709 / 1073741824 :: real) * 1000\<rfloor> = 4"
proof -
  have "num_samples 3000000 1000 = 1"
    unfolding num_samples_def max_float_to_int float_product_large by simp
  moreover have "num_samples (5368709 / 1073741824) 1000 = 5"
    unfolding num_samples_def max_float_to_int float_product_example by simp
  ultimately show ?thesis by simp
qed

subsection \<open>The Lambertian term\<close>

text \<open>On a finite angle term the falloff is finite: zero above 1, the square root otherwise.\<close>

lemma lambert_value_eq: "lambert_value a = (if 1 < a then 0 else sqrt (1 - a))"
  by (simp add: lambert_value_def lambert_def Let_def)





subsection \<open>From \<^verbatim>\<open>rand()\<close> to an aperture coordinate\<close>

lemma fround_scale:
  assumes "0 < p" "fround p x = x"
  shows "fround p (x * 2 powi n) = x * 2 powi n"
proof -
  from fround_representable [OF assms(1), of x] assms(2)
  obtain k j where k: "\<bar>k\<bar> < 2 ^ p" and x: "x = of_int k * 2 powi j" by auto
  have "x * 2 powi n = of_int k * 2 powi (j + n)" by (simp add: x power_int_add)
  with fround_fixed [OF k, of "j + n"] show ?thesis by simp
qed

lemma c_float_eval:
  "2 powi k \<le> \<bar>x\<bar> \<Longrightarrow> \<bar>x\<bar> < 2 powi (k + 1)
    \<Longrightarrow> c_float x = of_int (round_even (x / 2 powi (k - 23))) * 2 powi (k - 23)"
  unfolding c_float_def using fround_eval [of k x 24] by simp

lemma c_float_RAND_MAX: "c_float (real RAND_MAX) = 2147483648"
  using c_float_eval [of 30 "real RAND_MAX"] by (simp add: RAND_MAX_def round_even_def Let_def)

lemma c_double_idem [simp]: "c_double (c_double x) = c_double x"
  unfolding c_double_def by (rule fround_idem) simp

lemma rand_fraction_eq: "rand_fraction a = c_float (real a) / 2147483648"
proof -
  have "c_float (c_float (real a) * 2 powi (- 31)) = c_float (real a) * 2 powi (- 31)"
    unfolding c_float_def by (rule fround_scale) (simp_all add: fround_idem)
  moreover have "(2::real) powi (- 31) = 1 / 2147483648" by (simp add: power_int_minus)
  ultimately show ?thesis by (simp add: rand_fraction_def c_float_RAND_MAX)
qed

lemma rand_fraction_bounds:
  assumes "a \<le> RAND_MAX"
  shows "0 \<le> rand_fraction a \<and> rand_fraction a \<le> 1"
proof -
  have "real a \<le> real RAND_MAX" using assms by simp
  from c_float_mono [OF this] have "c_float (real a) \<le> 2147483648" by (simp add: c_float_RAND_MAX)
  moreover have "0 \<le> c_float (real a)" by (rule c_float_nonneg) simp
  ultimately show ?thesis by (simp add: rand_fraction_eq)
qed

lemma rand_fraction_mono: "a \<le> b \<Longrightarrow> rand_fraction a \<le> rand_fraction b"
  using c_float_mono [of "real a" "real b"] by (simp add: rand_fraction_eq)

lemma c_double_half: "c_double (1 / 2) = 1 / 2" "c_double (- (1 / 2)) = - (1 / 2)"
  using c_double_int [of 1 "- 1"] c_double_int [of "- 1" "- 1"] by (simp_all add: power_int_minus)

lemma c_double_m1: "c_double (- 1) = - 1"
  using c_double_int [of "- 1" 0] by simp

lemma c_rand_le: "fst (c_rand s) \<le> RAND_MAX"
  by (simp add: c_rand_def)

lemma unit_rand_eq: "unit_rand s = (c_double (rand_fraction (fst (c_rand s)) - 1 / 2), stl s)"
  by (simp add: unit_rand_def c_rand_def)

lemma unit_rand_bounds: "- (1 / 2) \<le> fst (unit_rand s) \<and> fst (unit_rand s) \<le> 1 / 2"
proof -
  let ?q = "rand_fraction (fst (c_rand s))"
  from rand_fraction_bounds [OF c_rand_le [of s]] have "- (1 / 2) \<le> ?q - 1 / 2" "?q - 1 / 2 \<le> 1 / 2"
    by simp_all
  from c_double_mono [OF this(1)] c_double_mono [OF this(2)] show ?thesis
    by (simp add: unit_rand_eq c_double_half)
qed

lemma unit_rand_stream: "snd (unit_rand s) = stl s"
  by (simp add: unit_rand_eq)

lemma candidate_stream: "snd (snd (candidate r s)) = stl (stl s)"
  by (simp add: candidate_def split_beta unit_rand_stream)

lemma candidate_eq:
  "candidate r s = (aperture_coord r (fst (unit_rand s)),
                    aperture_coord r (fst (unit_rand (stl s))), stl (stl s))"
  by (simp add: candidate_def split_beta unit_rand_stream)

lemma c_double_neg: "c_double x = x \<Longrightarrow> c_double (- x) = - x"
  unfolding c_double_def by (rule fround_neg_fixed) simp_all

lemma c_float_neg: "c_float x = x \<Longrightarrow> c_float (- x) = - x"
  unfolding c_float_def by (rule fround_neg_fixed) simp_all

lemma aperture_coord_in_square:
  assumes "0 \<le> r" "c_float r = r" "- (1 / 2) \<le> d" "d \<le> 1 / 2"
  shows "- r \<le> aperture_coord r d \<and> aperture_coord r d \<le> r"
proof -
  define e where "e = c_double (d * 2)"
  have "- 1 \<le> d * 2" "d * 2 \<le> 1" using assms(3,4) by simp_all
  from c_double_mono [OF this(1)] c_double_mono [OF this(2)]
  have e: "- 1 \<le> e" "e \<le> 1" by (simp_all add: e_def c_double_m1)
  have "e * r \<le> 1 * r" using e(2) assms(1) by (rule mult_right_mono)
  moreover have "(- 1) * r \<le> e * r" using e(1) assms(1) by (rule mult_right_mono)
  ultimately have er: "- r \<le> e * r" "e * r \<le> r" by simp_all
  have dr: "c_double r = r" using assms(2) by (rule c_double_of_float)
  from c_double_mono [OF er(1)] c_double_mono [OF er(2)]
  have v: "- r \<le> c_double (e * r)" "c_double (e * r) \<le> r"
    by (simp_all add: dr c_double_neg)
  from c_float_mono [OF v(1)] c_float_mono [OF v(2)]
  show ?thesis by (simp add: aperture_coord_def e_def assms(2) c_float_neg)
qed

lemma aperture_coord_mono:
  assumes "0 \<le> r" "d \<le> d'"
  shows "aperture_coord r d \<le> aperture_coord r d'"
proof -
  have "d * 2 \<le> d' * 2" using assms(2) by simp
  from c_double_mono [OF this] have "c_double (d * 2) * r \<le> c_double (d' * 2) * r"
    using assms(1) by (rule mult_right_mono)
  from c_float_mono [OF c_double_mono [OF this]] show ?thesis by (simp add: aperture_coord_def)
qed

lemma candidate_in_square:
  assumes "candidate r s = (x, y, s')" and "0 \<le> r" and "c_float r = r"
  shows "- r \<le> x \<and> x \<le> r \<and> - r \<le> y \<and> y \<le> r"
proof -
  have x: "x = aperture_coord r (fst (unit_rand s))"
    and y: "y = aperture_coord r (fst (unit_rand (stl s)))"
    using assms(1) by (simp_all add: candidate_eq)
  show ?thesis unfolding x y
    using aperture_coord_in_square [OF assms(2,3)] unit_rand_bounds by blast
qed

text \<open>
  The coordinate that the program computes from a value \<open>a\<close> of \<^verbatim>\<open>rand()\<close> is within
  \<open>r / 2\<^sup>2\<^sup>1\<close> of the point \<open>(a / RAND_MAX - 1/2) * 2 * r\<close> of the evenly spaced grid on
  \<open>[- r, r]\<close>.
\<close>

lemma coord_close:
  assumes "a \<le> RAND_MAX" "0 \<le> r"
  shows "\<bar>aperture_coord r (c_double (rand_fraction a - 1 / 2)) - spec_uniform_coord r a\<bar> \<le> r / 2 ^ 21"
proof -
  define q where "q = rand_fraction a"
  define d where "d = c_double (q - 1 / 2)"
  define v where "v = c_double (d * 2 * r)"
  define g where "g = real a / 2147483647"
  have a: "0 \<le> real a" "real a \<le> 2147483647" using assms(1) by (simp_all add: RAND_MAX_def)
  have g: "0 \<le> g" "g \<le> 1" using a by (simp_all add: g_def)
  have q: "0 \<le> q" "q \<le> 1" using rand_fraction_bounds [OF assms(1)] by (simp_all add: q_def)
  have "\<bar>c_float (real a) - real a\<bar> \<le> real a / 2 ^ 24" using c_float_error [of "real a"] by simp
  then have "\<bar>c_float (real a) - real a\<bar> \<le> 2147483647 / 2 ^ 24" using a by simp
  then have "\<bar>q - real a / 2147483648\<bar> \<le> 1 / 16777216"
    by (simp add: q_def rand_fraction_eq abs_if field_simps split: if_splits)
  moreover have "\<bar>real a / 2147483648 - g\<bar> \<le> 1 / 2147483648"
    using a by (simp add: g_def abs_if field_simps)
  ultimately have "\<bar>q - g\<bar> \<le> 1 / 16777216 + 1 / 2147483648" by linarith
  then have qg: "\<bar>q - g\<bar> \<le> 1 / 2 ^ 24 + 1 / 2 ^ 31" by simp
  have "\<bar>d - (q - 1 / 2)\<bar> \<le> \<bar>q - 1 / 2\<bar> / 2 ^ 53"
    unfolding d_def by (rule c_double_error)
  moreover have "\<bar>q - 1 / 2\<bar> \<le> 1 / 2" using q by (simp add: abs_if)
  ultimately have dq: "\<bar>d - (q - 1 / 2)\<bar> \<le> 1 / 2 ^ 54" by simp
  have "- (1 / 2) \<le> q - 1 / 2" "q - 1 / 2 \<le> 1 / 2" using q by simp_all
  from c_double_mono [OF this(1)] c_double_mono [OF this(2)]
  have d: "\<bar>d\<bar> \<le> 1 / 2" by (simp add: d_def c_double_half abs_if)
  have d2: "c_double (d * 2) = d * 2"
  proof -
    have "c_double (d * 2 powi 1) = d * 2 powi 1"
      unfolding c_double_def d_def by (rule fround_scale) (simp_all add: fround_idem)
    then show ?thesis by simp
  qed
  have w: "aperture_coord r (c_double (rand_fraction a - 1 / 2)) = c_float v"
    by (simp add: aperture_coord_def v_def d2 [unfolded d_def q_def] d_def q_def)
  have "\<bar>d * 2 * r\<bar> = \<bar>d\<bar> * (2 * r)" using assms(2) by (simp add: abs_mult)
  also have "\<dots> \<le> 1 / 2 * (2 * r)" using d assms(2) by (intro mult_right_mono) simp_all
  finally have dr: "\<bar>d * 2 * r\<bar> \<le> r" by simp
  have "\<bar>v - d * 2 * r\<bar> \<le> \<bar>d * 2 * r\<bar> / 2 ^ 53" unfolding v_def by (rule c_double_error)
  with dr have vd: "\<bar>v - d * 2 * r\<bar> \<le> r / 2 ^ 53" by simp
  with dr have vb: "\<bar>v\<bar> \<le> r + r / 2 ^ 53" by linarith
  have "\<bar>c_float v - v\<bar> \<le> \<bar>v\<bar> / 2 ^ 24" by (rule c_float_error)
  with vb have wv: "\<bar>c_float v - v\<bar> \<le> (r + r / 2 ^ 53) / 2 ^ 24" by simp
  have "\<bar>d - (g - 1 / 2)\<bar> \<le> 1 / 2 ^ 54 + 1 / 2 ^ 24 + 1 / 2 ^ 31" using dq qg by linarith
  then have "\<bar>d - (g - 1 / 2)\<bar> * (2 * r) \<le> (1 / 2 ^ 54 + 1 / 2 ^ 24 + 1 / 2 ^ 31) * (2 * r)"
    using assms(2) by (intro mult_right_mono) simp_all
  moreover have "d * 2 * r - spec_uniform_coord r a = (d - (g - 1 / 2)) * (2 * r)"
    by (simp add: spec_uniform_coord_def g_def RAND_MAX_def algebra_simps)
  moreover have "\<bar>(d - (g - 1 / 2)) * (2 * r)\<bar> = \<bar>d - (g - 1 / 2)\<bar> * (2 * r)"
    using assms(2) by (simp add: abs_mult)
  ultimately have du: "\<bar>d * 2 * r - spec_uniform_coord r a\<bar> \<le> (1 / 2 ^ 54 + 1 / 2 ^ 24 + 1 / 2 ^ 31) * (2 * r)"
    by simp
  have "\<bar>c_float v - spec_uniform_coord r a\<bar> \<le>
      (r + r / 2 ^ 53) / 2 ^ 24 + r / 2 ^ 53 + (1 / 2 ^ 54 + 1 / 2 ^ 24 + 1 / 2 ^ 31) * (2 * r)"
    using wv vd du by linarith
  also have "\<dots> \<le> r / 2 ^ 21" using assms(2) by (simp add: field_simps)
  finally show ?thesis by (simp add: w)
qed

subsection \<open>The aperture rejection loop\<close>

text \<open>
  A point that passes the test of the loop lies in the disc up to the rounding of the
  three products and the sum of the test.
\<close>

lemma near_disc:
  assumes "\<not> outside r x y"
  shows "(1 - 1 / 2 ^ 24) * (1 - 1 / 2 ^ 24) * (x * x + y * y) \<le> (1 + 1 / 2 ^ 24) * (r * r)"
proof -
  define A B where "A = c_float (x * x)" and "B = c_float (y * y)"
  have A: "(1 - 1 / 2 ^ 24) * (x * x) \<le> A" unfolding A_def by (rule c_float_lower) simp
  have B: "(1 - 1 / 2 ^ 24) * (y * y) \<le> B" unfolding B_def by (rule c_float_lower) simp
  have "0 \<le> A" "0 \<le> B" unfolding A_def B_def by (rule c_float_nonneg, simp)+
  then have "(1 - 1 / 2 ^ 24) * (A + B) \<le> c_float (A + B)" by (intro c_float_lower) simp
  moreover have "c_float (A + B) \<le> c_float (r * r)"
    using assms by (simp add: outside_def A_def B_def)
  moreover have "c_float (r * r) \<le> (1 + 1 / 2 ^ 24) * (r * r)" by (rule c_float_upper) simp
  moreover have "(1 - 1 / 2 ^ 24) * ((1 - 1 / 2 ^ 24) * (x * x) + (1 - 1 / 2 ^ 24) * (y * y))
      \<le> (1 - 1 / 2 ^ 24) * (A + B)"
    using A B by (intro mult_left_mono) simp_all
  ultimately show ?thesis by (simp add: algebra_simps)
qed

text \<open>
  What the loop returns is a candidate of the random source that passed the test, by
  induction on the unfolding of the loop.
\<close>

lemma sample_aperture_result:
  assumes "sample_aperture r s = Some (x_ap, y_ap, s')"
  shows "\<exists>k. candidate r (sdrop (2 * k) s) = (x_ap, y_ap, s') \<and> \<not> outside r x_ap y_ap"
proof -
  let ?P = "\<lambda>r (s::nat stream) res.
      \<exists>k. candidate r (sdrop (2 * k) s) = res \<and> \<not> outside r (fst res) (fst (snd res))"
  have "?P r s (x_ap, y_ap, s')"
  proof (rule sample_aperture.raw_induct [where P = ?P, OF _ assms])
    fix f r s res
    assume IH: "\<And>r s res. f r s = Some res \<Longrightarrow> ?P r s res"
      and step: "(case candidate r s of (x_ap, y_ap, s') \<Rightarrow>
          if outside r x_ap y_ap then f r s' else Some (x_ap, y_ap, s')) = Some res"
    obtain x y t where c: "candidate r s = (x, y, t)" by (cases "candidate r s") auto
    have t: "t = sdrop 2 s" using candidate_stream [of r s] c by (simp add: numeral_2_eq_2)
    show "?P r s res"
    proof (cases "outside r x y")
      case True
      with step c have "f r t = Some res" by simp
      from IH [OF this] obtain k where
        k: "candidate r (sdrop (2 * k) t) = res \<and> \<not> outside r (fst res) (fst (snd res))" ..
      have "sdrop (2 * k) t = sdrop (2 * Suc k) s" unfolding t by (simp add: sdrop_add)
      with k show ?thesis by metis
    next
      case False
      with step c have "res = (x, y, t)" by simp
      with False c have "candidate r (sdrop (2 * 0) s) = res \<and> \<not> outside r (fst res) (fst (snd res))"
        by simp
      then show ?thesis ..
    qed
  qed
  then show ?thesis by simp
qed

text \<open>The loop leaves the random source at a later point of the same stream.\<close>

lemma sample_aperture_suffix:
  assumes "sample_aperture r s = Some (x, y, s')"
  shows "\<exists>n. s' = sdrop n s"
proof -
  from sample_aperture_result [OF assms] obtain k where
    "candidate r (sdrop (2 * k) s) = (x, y, s')" by blast
  with candidate_stream [of r "sdrop (2 * k) s"] have "s' = sdrop (2 + 2 * k) s"
    by (simp add: sdrop_add numeral_2_eq_2)
  then show ?thesis ..
qed

text \<open>A source none of whose candidates passes the test keeps the loop running.\<close>

lemma sample_aperture_stuck:
  assumes "\<And>k. \<not> accepted r (sdrop (2 * k) s)"
  shows "sample_aperture r s = None"
proof (cases "sample_aperture r s")
  case None
  then show ?thesis .
next
  case (Some res)
  obtain x y s' where "res = (x, y, s')" by (cases res) auto
  with Some sample_aperture_result [of r s x y s'] obtain k where
    "candidate r (sdrop (2 * k) s) = (x, y, s')" "\<not> outside r x y" by blast
  then have "accepted r (sdrop (2 * k) s)" by (simp add: accepted_def)
  with assms show ?thesis by blast
qed

text \<open>A candidate that passes the test after finitely many rejected ones ends the loop.\<close>

lemma sample_aperture_returns:
  "accepted r (sdrop (2 * k) s) \<Longrightarrow> sample_aperture r s \<noteq> None"
proof (induction k arbitrary: s)
  case 0
  then show ?case
    by (subst sample_aperture.simps) (auto simp: accepted_def split: prod.splits)
next
  case (Suc k)
  obtain x y t where c: "candidate r s = (x, y, t)" by (cases "candidate r s") auto
  have t: "t = stl (stl s)" using candidate_stream [of r s] c by simp
  have "accepted r (sdrop (2 * k) t)" using Suc.prems t by simp
  from Suc.IH [OF this] have "sample_aperture r t \<noteq> None" .
  then show ?case
    by (subst sample_aperture.simps) (simp add: c)
qed

lemma sdrop_sconst: "sdrop n (sconst a) = sconst a"
  by (induction n) simp_all

text \<open>The candidates of the test sources, step by step.\<close>

lemma coord_middle:
  "aperture_coord r_pupil (c_double (rand_fraction 1073741823 - 1 / 2)) = 0"
proof -
  have e1: "c_float 1073741823 = 1073741824"
    using c_float_eval [of 29 1073741823] by (simp add: round_even_def Let_def)
  show ?thesis
    by (simp add: aperture_coord_def rand_fraction_eq r_pupil_def r_entrance_def e1)
qed

lemma coord_rim_x:
  "aperture_coord r_pupil (c_double (rand_fraction 577090037 - 1 / 2)) = - (2364431 / 262144)"
proof -
  have e1: "c_float 577090037 = 577090048"
    using c_float_eval [of 29 577090037] by (simp add: round_even_def Let_def)
  have e2: "c_double (- (970023 / 4194304)) = - (970023 / 4194304)"
    using c_double_int [of "- 970023" "- 22"] by (simp add: power_int_minus)
  have e3: "c_double (- (970023 / 2097152)) = - (970023 / 2097152)"
    using c_double_int [of "- 970023" "- 21"] by (simp add: power_int_minus)
  have e4: "c_double (- (37830897 / 4194304)) = - (37830897 / 4194304)"
    using c_double_int [of "- 37830897" "- 22"] by (simp add: power_int_minus)
  have e5: "c_float (- (37830897 / 4194304)) = - (2364431 / 262144)"
    using c_float_eval [of 3 "- (37830897 / 4194304)"] by (simp add: round_even_def Let_def)
  show ?thesis
    by (simp add: aperture_coord_def rand_fraction_eq r_pupil_def r_entrance_def e1 e2 e3 e4 e5)
qed

lemma coord_rim_y:
  "aperture_coord r_pupil (c_double (rand_fraction 2025717957 - 1 / 2)) = 4532113 / 262144"
proof -
  have e1: "c_float 2025717957 = 2025718016"
    using c_float_eval [of 30 2025717957] by (simp add: round_even_def Let_def)
  have e2: "c_double (3718657 / 8388608) = 3718657 / 8388608"
    using c_double_int [of 3718657 "- 23"] by (simp add: power_int_minus)
  have e3: "c_double (3718657 / 4194304) = 3718657 / 4194304"
    using c_double_int [of 3718657 "- 22"] by (simp add: power_int_minus)
  have e4: "c_double (145027623 / 8388608) = 145027623 / 8388608"
    using c_double_int [of 145027623 "- 23"] by (simp add: power_int_minus)
  have e5: "c_float (145027623 / 8388608) = 4532113 / 262144"
    using c_float_eval [of 4 "145027623 / 8388608"] by (simp add: round_even_def Let_def)
  show ?thesis
    by (simp add: aperture_coord_def rand_fraction_eq r_pupil_def r_entrance_def e1 e2 e3 e4 e5)
qed

lemma coord_zero:
  "aperture_coord r_pupil (c_double (rand_fraction 0 - 1 / 2)) = - (39 / 2)"
proof -
  have e1: "c_double (- (1 / 2)) = - (1 / 2)"
    using c_double_int [of "- 1" "- 1"] by (simp add: power_int_minus)
  have e2: "c_double (- 1) = - 1"
    using c_double_int [of "- 1" 0] by (simp add: power_int_minus)
  have e3: "c_double (- (39 / 2)) = - (39 / 2)"
    using c_double_int [of "- 39" "- 1"] by (simp add: power_int_minus)
  have e4: "c_float (- (39 / 2)) = - (39 / 2)"
    using c_float_int [of "- 39" "- 1"] by (simp add: power_int_minus)
  show ?thesis
    by (simp add: aperture_coord_def rand_fraction_eq r_pupil_def r_entrance_def e1 e2 e3 e4)
qed

lemma coord_alt_x:
  "aperture_coord r_pupil (c_double (rand_fraction 2147483607 - 1 / 2)) = 39 / 2"
proof -
  have e1: "c_float 2147483607 = 2147483648"
    using c_float_eval [of 30 2147483607] by (simp add: round_even_def Let_def)
  have e2: "c_double (1 / 2) = 1 / 2"
    using c_double_int [of 1 "- 1"] by (simp add: power_int_minus)
  have e3: "c_double (39 / 2) = 39 / 2"
    using c_double_int [of 39 "- 1"] by (simp add: power_int_minus)
  have e4: "c_float (39 / 2) = 39 / 2"
    using c_float_int [of 39 "- 1"] by (simp add: power_int_minus)
  show ?thesis
    by (simp add: aperture_coord_def rand_fraction_eq r_pupil_def r_entrance_def e1 e2 e3 e4)
qed

lemma coord_alt_y:
  "aperture_coord r_pupil (c_double (rand_fraction 1074017142 - 1 / 2)) = 83889 / 16777216"
proof -
  have e1: "c_float 1074017142 = 1074017152"
    using c_float_eval [of 30 1074017142] by (simp add: round_even_def Let_def)
  have e2: "c_double (2151 / 16777216) = 2151 / 16777216"
    using c_double_int [of 2151 "- 24"] by (simp add: power_int_minus)
  have e3: "c_double (2151 / 8388608) = 2151 / 8388608"
    using c_double_int [of 2151 "- 23"] by (simp add: power_int_minus)
  have e4: "c_double (83889 / 16777216) = 83889 / 16777216"
    using c_double_int [of 83889 "- 24"] by (simp add: power_int_minus)
  have e5: "c_float (83889 / 16777216) = 83889 / 16777216"
    using c_float_int [of 83889 "- 24"] by (simp add: power_int_minus)
  show ?thesis
    by (simp add: aperture_coord_def rand_fraction_eq r_pupil_def r_entrance_def e1 e2 e3 e4 e5)
qed

lemma middle_inside: "\<not> outside r_pupil 0 0"
proof -
  have e1: "c_float (1521 / 4) = 1521 / 4"
    using c_float_int [of 1521 "- 2"] by (simp add: power_int_minus)
  show ?thesis
    by (simp add: outside_def r_pupil_def r_entrance_def e1)
qed

lemma rim_inside: "\<not> outside r_pupil (- (2364431 / 262144)) (4532113 / 262144)"
proof -
  have e1: "c_float (5590533953761 / 68719476736) = 10663097 / 131072"
    using c_float_eval [of 6 "5590533953761 / 68719476736"] by (simp add: round_even_def Let_def)
  have e2: "c_float (20540048244769 / 68719476736) = 4897129 / 16384"
    using c_float_eval [of 8 "20540048244769 / 68719476736"] by (simp add: round_even_def Let_def)
  have e3: "c_float (49840129 / 131072) = 1521 / 4"
    using c_float_eval [of 8 "49840129 / 131072"] by (simp add: round_even_def Let_def)
  have e4: "c_float (1521 / 4) = 1521 / 4"
    using c_float_int [of 1521 "- 2"] by (simp add: power_int_minus)
  show ?thesis
    by (simp add: outside_def r_pupil_def r_entrance_def e1 e2 e3 e4)
qed

lemma corner_outside: "outside r_pupil (- (39 / 2)) (- (39 / 2))"
proof -
  have e1: "c_float (1521 / 4) = 1521 / 4"
    using c_float_int [of 1521 "- 2"] by (simp add: power_int_minus)
  have e2: "c_float (1521 / 2) = 1521 / 2"
    using c_float_int [of 1521 "- 1"] by (simp add: power_int_minus)
  show ?thesis
    by (simp add: outside_def r_pupil_def r_entrance_def e1 e2)
qed

lemma alt_outside: "outside r_pupil (39 / 2) (83889 / 16777216)"
proof -
  have e1: "c_float (1521 / 4) = 1521 / 4"
    using c_float_int [of 1521 "- 2"] by (simp add: power_int_minus)
  have e2: "c_float (7037364321 / 281474976710656) = 3436213 / 137438953472"
    using c_float_eval [of "- 16" "7037364321 / 281474976710656"] by (simp add: round_even_def Let_def)
  have e3: "c_float (52261165493941 / 137438953472) = 12460033 / 32768"
    using c_float_eval [of 8 "52261165493941 / 137438953472"] by (simp add: round_even_def Let_def)
  show ?thesis
    by (simp add: outside_def r_pupil_def r_entrance_def e1 e2 e3)
qed

lemma candidate_shd:
  "candidate r s =
     (aperture_coord r (c_double (rand_fraction (shd s mod (RAND_MAX + 1)) - 1 / 2)),
      aperture_coord r (c_double (rand_fraction (shd (stl s) mod (RAND_MAX + 1)) - 1 / 2)),
      stl (stl s))"
  by (simp add: candidate_eq unit_rand_eq c_rand_def)

lemma rand_fraction_middle: "rand_fraction 1073741823 = 1 / 2"
  using c_float_eval [of 29 1073741823] by (simp add: rand_fraction_eq round_even_def Let_def)

lemma demo_unit_rand: "unit_rand demo_rand = (0, demo_rand)"
  by (simp add: unit_rand_eq c_rand_def demo_rand_def RAND_MAX_def rand_fraction_middle)

lemma demo_candidate: "candidate r_pupil demo_rand = (0, 0, demo_rand)"
  using coord_middle by (simp add: candidate_shd demo_rand_def RAND_MAX_def)

lemma demo_accepted: "accepted r_pupil demo_rand"
  by (simp add: accepted_def demo_candidate middle_inside)

lemma demo_sample: "sample_aperture r_pupil demo_rand = Some (0, 0, demo_rand)"
  by (subst sample_aperture.simps) (simp add: demo_candidate middle_inside)


lemma rim_candidate:
  "candidate r_pupil rim_rand = (- (2364431 / 262144), 4532113 / 262144, demo_rand)"
  using coord_rim_x coord_rim_y by (simp add: candidate_shd rim_rand_def RAND_MAX_def)

lemma rim_sample:
  "sample_aperture r_pupil rim_rand = Some (- (2364431 / 262144), 4532113 / 262144, demo_rand)"
  by (subst sample_aperture.simps) (simp add: rim_candidate rim_inside)

lemma rim_eval_sample:
  "eval_sample sys xw ps w c rim_rand =
     Some (splat_of sys [xw, - (2364431 / 262144), 4532113 / 262144] w c, demo_rand)"
  by (simp add: eval_sample_def rim_sample demo_unit_rand)

lemma r_pupil_float: "0 \<le> r_pupil \<and> c_float r_pupil = r_pupil"
  using c_float_int [of 39 "- 1"] by (simp add: r_pupil_def r_entrance_def power_int_minus)

text \<open>
  C7, as the program has it. The candidates and the test of the rejection loop are
  computed in floating point. A point that the loop returns is a candidate of the
  random source that passed the rounded test, and it lies in the disc of the radius up
  to the rounding of the test:
  \<open>(1 - 2\<^sup>-\<^sup>2\<^sup>4)\<^sup>2 * (x\<^sup>2 + y\<^sup>2) \<le> (1 + 2\<^sup>-\<^sup>2\<^sup>4) * r\<^sup>2\<close>. Each coordinate of a candidate is
  computed from one value of \<^verbatim>\<open>rand()\<close> of its own; it lies in \<open>[- r, r]\<close> when the
  radius is a non-negative \<^verbatim>\<open>float\<close>; it does not decrease when the value of \<^verbatim>\<open>rand()\<close>
  grows; and it is within \<open>r / 2\<^sup>2\<^sup>1\<close> of the point \<open>(a / RAND_MAX - 1/2) * 2 * r\<close> that
  divides \<open>[- r, r]\<close> evenly over the values \<open>a\<close> of \<^verbatim>\<open>rand()\<close>, so that a uniform
  \<^verbatim>\<open>rand()\<close> gives candidates spread evenly over the square up to that rounding. Every
  sample that is evaluated through the optical system has, as its aperture coordinates,
  a point returned by the loop for the pupil radius.
\<close>

theorem aperture_points_near_disc:
  "(sample_aperture r s = Some (x_ap, y_ap, s') \<longrightarrow>
      \<not> outside r x_ap y_ap
      \<and> (1 - 1 / 2 ^ 24) * (1 - 1 / 2 ^ 24) * (x_ap * x_ap + y_ap * y_ap) \<le> (1 + 1 / 2 ^ 24) * (r * r)
      \<and> (\<exists>k. candidate r (sdrop (2 * k) s) = (x_ap, y_ap, s')))
 \<and> candidate r t =
      (aperture_coord r (c_double (rand_fraction (shd t mod (RAND_MAX + 1)) - 1 / 2)),
       aperture_coord r (c_double (rand_fraction (shd (stl t) mod (RAND_MAX + 1)) - 1 / 2)),
       stl (stl t))
 \<and> (candidate r t = (u, v, t') \<and> 0 \<le> r \<and> c_float r = r \<longrightarrow>
      - r \<le> u \<and> u \<le> r \<and> - r \<le> v \<and> v \<le> r)
 \<and> (a \<le> b \<and> 0 \<le> r \<longrightarrow>
      aperture_coord r (c_double (rand_fraction a - 1 / 2))
        \<le> aperture_coord r (c_double (rand_fraction b - 1 / 2)))
 \<and> (a \<le> RAND_MAX \<and> 0 \<le> r \<longrightarrow>
      \<bar>aperture_coord r (c_double (rand_fraction a - 1 / 2)) - spec_uniform_coord r a\<bar> \<le> r / 2 ^ 21)
 \<and> (eval_sample sys_y xw psize weight c s0 = Some (e, s2) \<longrightarrow>
      (\<exists>x y s1. sample_aperture r_pupil s0 = Some (x, y, s1)
         \<and> \<not> outside r_pupil x y
         \<and> (1 - 1 / 2 ^ 24) * (1 - 1 / 2 ^ 24) * (x * x + y * y)
              \<le> (1 + 1 / 2 ^ 24) * (r_pupil * r_pupil)
         \<and> e = splat_of sys_y [xw + psize * fst (unit_rand s1), x, y] weight c))"
proof -
  have 1: "\<not> outside r x_ap y_ap
      \<and> (1 - 1 / 2 ^ 24) * (1 - 1 / 2 ^ 24) * (x_ap * x_ap + y_ap * y_ap) \<le> (1 + 1 / 2 ^ 24) * (r * r)
      \<and> (\<exists>k. candidate r (sdrop (2 * k) s) = (x_ap, y_ap, s'))"
    if "sample_aperture r s = Some (x_ap, y_ap, s')"
    using sample_aperture_result [OF that] near_disc [of r x_ap y_ap] by blast
  have 2: "- r \<le> u \<and> u \<le> r \<and> - r \<le> v \<and> v \<le> r"
    if "candidate r t = (u, v, t') \<and> 0 \<le> r \<and> c_float r = r"
    using that candidate_in_square by blast
  have 3: "aperture_coord r (c_double (rand_fraction a - 1 / 2))
        \<le> aperture_coord r (c_double (rand_fraction b - 1 / 2))" if "a \<le> b \<and> 0 \<le> r"
  proof -
    from that have "rand_fraction a - 1 / 2 \<le> rand_fraction b - 1 / 2"
      using rand_fraction_mono [of a b] by simp
    from aperture_coord_mono [OF _ c_double_mono [OF this]] that show ?thesis by simp
  qed
  have 4: "\<bar>aperture_coord r (c_double (rand_fraction a - 1 / 2)) - spec_uniform_coord r a\<bar> \<le> r / 2 ^ 21"
    if "a \<le> RAND_MAX \<and> 0 \<le> r"
    using that coord_close by blast
  have 5: "\<exists>x y s1. sample_aperture r_pupil s0 = Some (x, y, s1)
         \<and> \<not> outside r_pupil x y
         \<and> (1 - 1 / 2 ^ 24) * (1 - 1 / 2 ^ 24) * (x * x + y * y)
              \<le> (1 + 1 / 2 ^ 24) * (r_pupil * r_pupil)
         \<and> e = splat_of sys_y [xw + psize * fst (unit_rand s1), x, y] weight c"
    if a: "eval_sample sys_y xw psize weight c s0 = Some (e, s2)"
  proof -
    from a obtain x y s1 where r: "sample_aperture r_pupil s0 = Some (x, y, s1)"
      by (cases "sample_aperture r_pupil s0") (auto simp: eval_sample_def)
    from a r have "e = splat_of sys_y [xw + psize * fst (unit_rand s1), x, y] weight c"
      by (simp add: eval_sample_def split_beta)
    moreover from sample_aperture_result [OF r] have o: "\<not> outside r_pupil x y" by blast
    moreover note near_disc [OF o]
    ultimately show ?thesis using r by blast
  qed
  from 1 2 3 4 5 candidate_shd [of r t] show ?thesis by blast
qed

text \<open>
  On the source \<open>rim_rand\<close> the first candidate is accepted: it passed the test, it is
  in the square, and it is the aperture point of the sample.
\<close>

theorem aperture_points_near_disc_witness:
  "sample_aperture r_pupil rim_rand = Some (- (2364431 / 262144), 4532113 / 262144, demo_rand)
   \<and> \<not> outside r_pupil (- (2364431 / 262144)) (4532113 / 262144)
   \<and> candidate r_pupil rim_rand = (- (2364431 / 262144), 4532113 / 262144, demo_rand)
   \<and> 0 \<le> r_pupil \<and> c_float r_pupil = r_pupil
   \<and> - r_pupil \<le> - (2364431 / 262144) \<and> 4532113 / 262144 \<le> r_pupil
   \<and> (577090037 :: nat) \<le> 2025717957 \<and> (2025717957 :: nat) \<le> RAND_MAX
   \<and> \<bar>4532113 / 262144 - spec_uniform_coord r_pupil 2025717957\<bar> \<le> r_pupil / 2 ^ 21
   \<and> eval_sample [] 0 1 1 (1, 1, 1) rim_rand =
        Some (splat_of [] [0, - (2364431 / 262144), 4532113 / 262144] 1 (1, 1, 1), demo_rand)
   \<and> (\<exists>x y s1. sample_aperture r_pupil rim_rand = Some (x, y, s1) \<and> \<not> outside r_pupil x y)"
proof -
  note T = aperture_points_near_disc [where r = r_pupil and s = rim_rand
      and x_ap = "- (2364431 / 262144)" and y_ap = "4532113 / 262144" and s' = demo_rand
      and t = rim_rand and u = "- (2364431 / 262144)" and v = "4532113 / 262144"
      and t' = demo_rand and a = 2025717957 and b = 2025717957
      and sys_y = "[]" and xw = 0 and psize = 1 and weight = 1 and c = "(1, 1, 1)"
      and ?s0.0 = rim_rand and ?s2.0 = demo_rand
      and e = "splat_of [] [0, - (2364431 / 262144), 4532113 / 262144] 1 (1, 1, 1)"]
  have n: "(577090037 :: nat) \<le> 2025717957" "(2025717957 :: nat) \<le> RAND_MAX"
    by (simp_all add: RAND_MAX_def)
  from T rim_sample have a: "\<not> outside r_pupil (- (2364431 / 262144)) (4532113 / 262144)"
    by blast
  from T rim_candidate r_pupil_float
  have b: "- r_pupil \<le> - (2364431 / 262144) \<and> 4532113 / 262144 \<le> r_pupil" by blast
  from T n(2) r_pupil_float
  have "\<bar>aperture_coord r_pupil (c_double (rand_fraction 2025717957 - 1 / 2))
          - spec_uniform_coord r_pupil 2025717957\<bar> \<le> r_pupil / 2 ^ 21" by blast
  then have c: "\<bar>4532113 / 262144 - spec_uniform_coord r_pupil 2025717957\<bar> \<le> r_pupil / 2 ^ 21"
    by (simp only: coord_rim_y)
  from T rim_eval_sample [of "[]" 0 1 1 "(1, 1, 1)"]
  have d: "\<exists>x y s1. sample_aperture r_pupil rim_rand = Some (x, y, s1) \<and> \<not> outside r_pupil x y"
    by blast
  from a b c d n rim_sample rim_candidate r_pupil_float rim_eval_sample [of "[]" 0 1 1 "(1, 1, 1)"]
  show ?thesis by blast
qed

text \<open>
  C7 as stated fails: the point that the loop returns on \<open>rim_rand\<close> passed the rounded
  test, and the sum of its squares is above the square of the radius.
\<close>

theorem accepted_point_outside_disc:
  "sample_aperture r_pupil rim_rand = Some (- (2364431 / 262144), 4532113 / 262144, demo_rand)
   \<and> r_pupil * r_pupil
       < (- (2364431 / 262144)) * (- (2364431 / 262144)) + (4532113 / 262144) * (4532113 / 262144)"
  using rim_sample by (simp add: r_pupil_def r_entrance_def)

subsection \<open>The loops of the renderer\<close>

text \<open>A loop whose body returns and keeps an invariant returns and keeps it.\<close>

lemma for_each_inv:
  assumes "\<And>k st. k \<in> set ks \<Longrightarrow> I st \<Longrightarrow> \<exists>st'. body k st = Some st' \<and> I st'" and "I st"
  shows "\<exists>st'. for_each ks body st = Some st' \<and> I st'"
  using assms
proof (induction ks arbitrary: st)
  case Nil
  then show ?case by simp
next
  case (Cons k ks)
  from Cons.prems(1) [of k st] Cons.prems(2)
  obtain st1 where b: "body k st = Some st1" and i: "I st1" by auto
  have "\<exists>st'. for_each ks body st1 = Some st' \<and> I st'"
    using Cons.prems(1) i by (intro Cons.IH) auto
  with b show ?case by simp
qed

subsection \<open>Termination of the renderer\<close>

lemma fair_sdrop: "fair r s \<Longrightarrow> fair r (sdrop n s)"
  unfolding fair_def
proof
  fix m
  assume a: "\<forall>n. \<exists>k. accepted r (sdrop (n + 2 * k) s)"
  then obtain k where "accepted r (sdrop (n + m + 2 * k) s)" by blast
  then have "accepted r (sdrop (m + 2 * k) (sdrop n s))"
    by (simp add: sdrop_add add.assoc)
  then show "\<exists>k. accepted r (sdrop (m + 2 * k) (sdrop n s))" ..
qed

lemma fair_returns: "fair r s \<Longrightarrow> sample_aperture r s \<noteq> None"
proof -
  assume "fair r s"
  then obtain k where "accepted r (sdrop (0 + 2 * k) s)" unfolding fair_def by blast
  then show ?thesis using sample_aperture_returns [of r k s] by simp
qed

lemma eval_sample_fair:
  assumes "fair r_pupil s"
  shows "\<exists>e s'. eval_sample sys xw ps w c s = Some (e, s') \<and> fair r_pupil s'"
proof -
  from fair_returns [OF assms]
  obtain x y s1 where r: "sample_aperture r_pupil s = Some (x, y, s1)"
    by (cases "sample_aperture r_pupil s") auto
  from sample_aperture_suffix [OF r] obtain n where "s1 = sdrop n s" ..
  then have "snd (unit_rand s1) = sdrop (Suc n) s"
    by (simp add: unit_rand_stream)
  then have "fair r_pupil (snd (unit_rand s1))"
    using fair_sdrop [OF assms, of "Suc n"] by simp
  then show ?thesis using r by (simp add: eval_sample_def split_beta)
qed

lemma one_sample_fair:
  assumes "fair r_pupil (fst st)"
  shows "\<exists>st'. one_sample sys xw ps w c st = Some st' \<and> fair r_pupil (fst st')"
  using eval_sample_fair [OF assms, of sys xw ps w c]
  by (auto simp: one_sample_def)

lemma render_pixel_fair:
  assumes "fair r_pupil (fst st)"
  shows "\<exists>st'. render_pixel C ll j i st = Some st' \<and> fair r_pupil (fst st')"
  unfolding render_pixel_def Let_def
  by (rule for_each_inv [where I = "\<lambda>st. fair r_pupil (fst st)", OF _ assms])
    (rule one_sample_fair)

lemma render_row_fair:
  assumes "fair r_pupil (fst st)"
  shows "\<exists>st'. render_row C ll j st = Some st' \<and> fair r_pupil (fst st')"
  unfolding render_row_def
  by (rule for_each_inv [where I = "\<lambda>st. fair r_pupil (fst st)", OF _ assms])
    (rule render_pixel_fair)

lemma render_bin_fair:
  assumes "fair r_pupil (fst st)"
  shows "\<exists>st'. render_bin C ll st = Some st' \<and> fair r_pupil (fst st')"
  unfolding render_bin_def
  by (rule for_each_inv [where I = "\<lambda>st. fair r_pupil (fst st)", OF _ assms])
    (rule render_row_fair)

lemma monte_carlo_fair:
  assumes "fair r_pupil (fst st)"
  shows "\<exists>st'. monte_carlo C st = Some st' \<and> fair r_pupil (fst st')"
  unfolding monte_carlo_def
  by (rule for_each_inv [where I = "\<lambda>st. fair r_pupil (fst st)", OF _ assms])
    (rule render_bin_fair)

lemma render_returns:
  assumes "fair r_pupil s"
  shows "render C s \<noteq> None"
  using monte_carlo_fair [of "(s, img_out_init)" C] assms
  by (auto simp: render_def)

lemma demo_fair: "fair r_pupil demo_rand"
  unfolding fair_def
proof
  fix n
  have "sdrop (n + 2 * 0) demo_rand = demo_rand" by (simp add: demo_rand_def sdrop_sconst)
  with demo_accepted have "accepted r_pupil (sdrop (n + 2 * 0) demo_rand)" by simp
  then show "\<exists>k. accepted r_pupil (sdrop (n + 2 * k) demo_rand)" ..
qed

lemma zero_candidate: "candidate r_pupil (sconst 0) = (- (39 / 2), - (39 / 2), sconst 0)"
  using coord_zero by (simp add: candidate_shd)

lemma alt_rand_period: "sdrop (2 * k) alt_rand = alt_rand"
proof (induction k)
  case 0
  then show ?case by simp
next
  case (Suc k)
  have "stl (stl alt_rand) = alt_rand" by (simp add: alt_rand_def)
  with Suc show ?case by simp
qed

lemma alt_candidate: "candidate r_pupil alt_rand = (39 / 2, 83889 / 16777216, alt_rand)"
proof -
  have "shd alt_rand = 2147483607" "shd (stl alt_rand) = 1074017142" "stl (stl alt_rand) = alt_rand"
    by (simp_all add: alt_rand_def)
  with coord_alt_x coord_alt_y show ?thesis by (simp add: candidate_shd RAND_MAX_def)
qed

text \<open>
  C8, as the program has it. The loops over the spectral bins, the rows, the columns and
  the samples are counted loops. The rejection loop, with its candidates and its test
  rounded as the program computes them, returns exactly when some candidate of the
  random sequence (a pair of consecutive numbers, after an even number of them) passes
  the test; and the rendering returns for every random sequence that is fair for the
  pupil radius, that is, which from every point on offers such a candidate.
\<close>

theorem rendering_terminates_when_fair:
  "((sample_aperture r s \<noteq> None) = (\<exists>k. accepted r (sdrop (2 * k) s)))
   \<and> (fair r_pupil t \<longrightarrow> render C t \<noteq> None)"
proof -
  have "sample_aperture r s \<noteq> None" if "\<exists>k. accepted r (sdrop (2 * k) s)"
    using that sample_aperture_returns by blast
  moreover have "\<exists>k. accepted r (sdrop (2 * k) s)" if ret: "sample_aperture r s \<noteq> None"
  proof (rule ccontr)
    assume "\<not> (\<exists>k. accepted r (sdrop (2 * k) s))"
    then have "\<And>k. \<not> accepted r (sdrop (2 * k) s)" by blast
    from sample_aperture_stuck [OF this] ret show False by simp
  qed
  moreover have "render C t \<noteq> None" if "fair r_pupil t"
    using that render_returns by blast
  ultimately show ?thesis by blast
qed

text \<open>
  The source that returns the middle of its range for ever is fair, and the rendering
  of the test scene returns on it.
\<close>

theorem rendering_terminates_when_fair_witness:
  "sample_aperture r_pupil demo_rand \<noteq> None \<and> accepted r_pupil (sdrop (2 * 0) demo_rand)
   \<and> fair r_pupil demo_rand
   \<and> render demo_scene demo_rand \<noteq> None"
proof -
  have "\<exists>k. accepted r_pupil (sdrop (2 * k) demo_rand)"
    using demo_accepted by (intro exI [of _ 0]) simp
  with rendering_terminates_when_fair [of r_pupil demo_rand demo_rand demo_scene]
    demo_fair demo_accepted
  show ?thesis by simp
qed

text \<open>
  C8 as stated fails. On the random sequence that is 0 for ever every candidate is the
  corner \<open>(- r_pupil, - r_pupil)\<close> of the square; on the sequence that alternates
  between 2147483607 and 1074017142 every candidate is \<open>(39/2, 83889/16777216)\<close>. The
  test rejects both, and the rejection loop does not return.
\<close>

theorem rejection_loop_stuck:
  "sample_aperture r_pupil (sconst 0) = None \<and> sample_aperture r_pupil alt_rand = None"
proof
  show "sample_aperture r_pupil (sconst 0) = None"
  proof (rule sample_aperture_stuck)
    fix k
    show "\<not> accepted r_pupil (sdrop (2 * k) (sconst 0))"
      by (simp add: sdrop_sconst accepted_def zero_candidate corner_outside)
  qed
  show "sample_aperture r_pupil alt_rand = None"
  proof (rule sample_aperture_stuck)
    fix k
    show "\<not> accepted r_pupil (sdrop (2 * k) alt_rand)"
      by (simp add: alt_rand_period accepted_def alt_candidate alt_outside)
  qed
qed

subsection \<open>Pixels of an image\<close>

lemma offset_less:
  assumes "wf_img img" "x < cwidth img" "y < cheight img" "c < cspectrum img"
  shows "offset img x y c < length (cdata img)"
proof -
  let ?w = "cwidth img" and ?h = "cheight img"
  have "x + y * ?w < ?w * ?h"
  proof -
    have "x + y * ?w < ?w + y * ?w" using assms(2) by simp
    also have "\<dots> = ?w * Suc y" by simp
    also have "\<dots> \<le> ?w * ?h" using assms(3) by (intro mult_le_mono2) simp
    finally show ?thesis .
  qed
  then have "x + y * ?w + c * (?w * ?h) < ?w * ?h + c * (?w * ?h)" by simp
  also have "\<dots> = ?w * ?h * Suc c" by simp
  also have "\<dots> \<le> ?w * ?h * cspectrum img" using assms(4) by (intro mult_le_mono2) simp
  finally show ?thesis using assms(1) by (simp add: offset_def wf_img_def mult.assoc)
qed

lemma offset_inj:
  assumes "x < cwidth img" "x' < cwidth img" "y < cheight img" "y' < cheight img"
    and "offset img x y c = offset img x' y' c'"
  shows "x = x' \<and> y = y' \<and> c = c'"
proof -
  let ?w = "cwidth img" and ?h = "cheight img"
  have e: "x + ?w * (y + ?h * c) = x' + ?w * (y' + ?h * c')"
    using assms(5) by (simp add: offset_def algebra_simps)
  have "(x + ?w * (y + ?h * c)) mod ?w = x" "(x' + ?w * (y' + ?h * c')) mod ?w = x'"
    using assms(1,2) by simp_all
  with e have x: "x = x'" by simp
  have wpos: "0 < ?w" using assms(1) by simp
  from e x wpos have e2: "y + ?h * c = y' + ?h * c'" by simp
  have "(y + ?h * c) mod ?h = y" "(y' + ?h * c') mod ?h = y'"
    using assms(3,4) by simp_all
  with e2 have y: "y = y'" by simp
  have "0 < ?h" using assms(3) by simp
  with e2 y have "c = c'" by simp
  with x y show ?thesis by simp
qed

lemma atXY_set_atXY:
  assumes "wf_img img" "x < cwidth img" "y < cheight img" "c < cspectrum img"
    "x' < cwidth img" "y' < cheight img"
  shows "atXY (set_atXY img x y c v) x' y' c' =
      (if x' = x \<and> y' = y \<and> c' = c then v else atXY img x' y' c')"
proof (cases "x' = x \<and> y' = y \<and> c' = c")
  case True
  then show ?thesis using offset_less [OF assms(1-4)]
    by (simp add: atXY_def set_atXY_def offset_def)
next
  case False
  then have "offset img x y c \<noteq> offset img x' y' c'"
    using offset_inj [OF assms(2) assms(5) assms(3) assms(6)] by blast
  with False show ?thesis
    by (auto simp add: atXY_def set_atXY_def offset_def)
qed

lemma set_atXY_dims [simp]:
  "cwidth (set_atXY img x y c v) = cwidth img"
  "cheight (set_atXY img x y c v) = cheight img"
  "cspectrum (set_atXY img x y c v) = cspectrum img"
  by (simp_all add: set_atXY_def)

lemma wf_set_atXY [simp]: "wf_img (set_atXY img x y c v) = wf_img img"
  by (simp add: set_atXY_def wf_img_def)

lemma new_img_wf: "wf_img (new_img w h s v)"
  by (simp add: new_img_def wf_img_def)

lemma new_img_at:
  assumes "x < w" "y < h" "c < s"
  shows "atXY (new_img w h s v) x y c = v"
proof -
  have "offset (new_img w h s v) x y c < length (cdata (new_img w h s v))"
    using assms by (intro offset_less new_img_wf) (simp_all add: new_img_def)
  then show ?thesis by (simp add: atXY_def new_img_def)
qed


subsection \<open>Gamut correction\<close>

lemma gamut_pixel_dims [simp]:
  "cwidth (gamut_pixel j i img) = cwidth img"
  "cheight (gamut_pixel j i img) = cheight img"
  "cspectrum (gamut_pixel j i img) = cspectrum img"
  "wf_img (gamut_pixel j i img) = wf_img img"
  by (simp_all add: gamut_pixel_def Let_def)

lemma gamut_pixel_at:
  assumes "wf_img img" "cspectrum img = 3" "i < cwidth img" "j < cheight img"
    "x < cwidth img" "y < cheight img" "c < 3"
  shows "atXY (gamut_pixel j i img) x y c =
    (if x = i \<and> y = j then max (atXY img x y c) (0.02 * max_value img i j) else atXY img x y c)"
proof -
  have c: "c = 0 \<or> c = 1 \<or> c = 2" using assms(7) by auto
  show ?thesis using assms(1-6) c
    by (auto simp add: gamut_pixel_def Let_def atXY_set_atXY)
qed

lemma gamut_cols_dims [simp]:
  "cwidth (fold (gamut_pixel j) [0..<n] img) = cwidth img"
  "cheight (fold (gamut_pixel j) [0..<n] img) = cheight img"
  "cspectrum (fold (gamut_pixel j) [0..<n] img) = cspectrum img"
  "wf_img (fold (gamut_pixel j) [0..<n] img) = wf_img img"
  by (induction n) simp_all

text \<open>
  The loop over the columns, after \<open>n\<close> of them: the pixels of the row up to \<open>n\<close> are
  corrected with their maximum of before the pass, the others are as before.
\<close>

lemma gamut_cols_at:
  assumes "wf_img img" "cspectrum img = 3" "n \<le> cwidth img" "j < cheight img"
    "x < cwidth img" "y < cheight img" "c < 3"
  shows "atXY (fold (gamut_pixel j) [0..<n] img) x y c =
    (if x < n \<and> y = j then max (atXY img x y c) (0.02 * max_value img x y) else atXY img x y c)"
  using assms(3,5,6,7)
proof (induction n arbitrary: x y c)
  case 0
  then show ?case by simp
next
  case (Suc n)
  let ?img = "fold (gamut_pixel j) [0..<n] img"
  have n: "n < cwidth img" "n \<le> cwidth img" using Suc.prems by simp_all
  have m: "max_value ?img n j = max_value img n j"
    using assms(4) n by (simp add: max_value_def Suc.IH)
  have "atXY (gamut_pixel j n ?img) x y c =
      (if x = n \<and> y = j then max (atXY ?img x y c) (0.02 * max_value ?img n j)
       else atXY ?img x y c)"
    using assms(1,2,4) n Suc.prems by (intro gamut_pixel_at) simp_all
  also have "\<dots> = (if x < Suc n \<and> y = j then max (atXY img x y c) (0.02 * max_value img x y)
       else atXY img x y c)"
    using Suc.prems n by (auto simp add: m Suc.IH)
  finally show ?case by simp
qed

lemma gamut_row_at:
  assumes "wf_img img" "cspectrum img = 3" "n \<le> cwidth img" "j < cheight img"
    "x < cwidth img" "y < cheight img" "c < 3"
  shows "atXY (gamut_row n j img) x y c =
    (if x < n \<and> y = j then max (atXY img x y c) (0.02 * max_value img x y) else atXY img x y c)"
  unfolding gamut_row_def using assms by (rule gamut_cols_at)

lemma gamut_row_dims [simp]:
  "cwidth (gamut_row xres j img) = cwidth img"
  "cheight (gamut_row xres j img) = cheight img"
  "cspectrum (gamut_row xres j img) = cspectrum img"
  "wf_img (gamut_row xres j img) = wf_img img"
  by (simp_all add: gamut_row_def)

lemma gamut_rows_dims [simp]:
  "cwidth (fold (gamut_row xres) [0..<n] img) = cwidth img"
  "cheight (fold (gamut_row xres) [0..<n] img) = cheight img"
  "cspectrum (fold (gamut_row xres) [0..<n] img) = cspectrum img"
  "wf_img (fold (gamut_row xres) [0..<n] img) = wf_img img"
  by (induction n) simp_all

lemma gamut_rows_at:
  assumes "wf_img img" "cspectrum img = 3" "n \<le> cheight img"
    "x < cwidth img" "y < cheight img" "c < 3"
  shows "atXY (fold (gamut_row (cwidth img)) [0..<n] img) x y c =
    (if y < n then max (atXY img x y c) (0.02 * max_value img x y) else atXY img x y c)"
  using assms(3,4,5,6)
proof (induction n arbitrary: x y c)
  case 0
  then show ?case by simp
next
  case (Suc n)
  let ?img = "fold (gamut_row (cwidth img)) [0..<n] img"
  have n: "n < cheight img" "n \<le> cheight img" using Suc.prems by simp_all
  have m: "max_value ?img x n = max_value img x n"
    using Suc.prems n by (simp add: max_value_def Suc.IH)
  have "atXY (gamut_row (cwidth img) n ?img) x y c =
      (if x < cwidth img \<and> y = n then max (atXY ?img x y c) (0.02 * max_value ?img x y)
       else atXY ?img x y c)"
    using assms(1,2) n Suc.prems by (intro gamut_row_at) simp_all
  also have "\<dots> = (if y < Suc n then max (atXY img x y c) (0.02 * max_value img x y)
       else atXY img x y c)"
    using Suc.prems n by (auto simp add: m Suc.IH)
  finally show ?case by simp
qed

lemma gamut_fix_at:
  assumes "wf_img img" "cspectrum img = 3" "x < cwidth img" "y < cheight img" "c < 3"
  shows "atXY (gamut_fix (cwidth img) (cheight img) img) x y c =
      max (atXY img x y c) (0.02 * max_value img x y)"
  unfolding gamut_fix_def
  using gamut_rows_at [OF assms(1,2) order_refl assms(3,4,5)] assms(4) by simp

lemma gamut_fix_max:
  assumes "wf_img img" "cspectrum img = 3" "x < cwidth img" "y < cheight img"
  shows "max_value (gamut_fix (cwidth img) (cheight img) img) x y =
      max (max_value img x y) (0.02 * max_value img x y)"
proof -
  have "max_value (gamut_fix (cwidth img) (cheight img) img) x y =
     max (max (atXY img x y 0) (0.02 * max_value img x y))
       (max (max (atXY img x y 1) (0.02 * max_value img x y))
            (max (atXY img x y 2) (0.02 * max_value img x y)))"
    using assms by (simp add: max_value_def [of "gamut_fix _ _ _"] gamut_fix_at)
  also have "\<dots> = max (max_value img x y) (0.02 * max_value img x y)"
    by (simp add: max_value_def max.assoc max.left_commute)
  finally show ?thesis .
qed

text \<open>
  C2, as the program has it. After the pass over an image of three channels, each
  channel of each pixel is the larger of its value before the pass and 0.02 times the
  maximum channel value \<open>M\<close> that the pixel had before the pass, so it is at least
  \<open>0.02 * M\<close>. When \<open>M\<close> is not negative the maximum of the pixel is unchanged; when
  \<open>M\<close> is negative the maximum of the pixel becomes \<open>0.02 * M\<close>.
\<close>

theorem gamut_floor:
  assumes "wf_img img" "cspectrum img = 3" "x < cwidth img" "y < cheight img" "c < 3"
  shows "atXY (gamut_fix (cwidth img) (cheight img) img) x y c
           = max (atXY img x y c) (0.02 * max_value img x y)
     \<and> 0.02 * max_value img x y \<le> atXY (gamut_fix (cwidth img) (cheight img) img) x y c
     \<and> (0 \<le> max_value img x y \<longrightarrow>
          max_value (gamut_fix (cwidth img) (cheight img) img) x y = max_value img x y)
     \<and> (max_value img x y < 0 \<longrightarrow>
          max_value (gamut_fix (cwidth img) (cheight img) img) x y = 0.02 * max_value img x y)"
  using gamut_fix_at [OF assms] gamut_fix_max [OF assms(1-4)] by (auto simp: max_def)

lemma demo_pixel_facts:
  "wf_img demo_pixel" "cspectrum demo_pixel = 3" "cwidth demo_pixel = 1" "cheight demo_pixel = 1"
  "atXY demo_pixel 0 0 1 = - 1" "max_value demo_pixel 0 0 = 1"
  by (simp_all add: demo_pixel_def wf_img_def atXY_def max_value_def offset_def)

text \<open>
  The pixel \<open>(1, - 1, 0)\<close> has the maximum 1: its second channel is raised to 0.02 and
  its maximum stays 1.
\<close>

theorem gamut_floor_witness:
  "wf_img demo_pixel \<and> cspectrum demo_pixel = 3 \<and> 0 < cwidth demo_pixel \<and> 0 < cheight demo_pixel
   \<and> 0 \<le> max_value demo_pixel 0 0
   \<and> atXY (gamut_fix 1 1 demo_pixel) 0 0 1 = 0.02
   \<and> max_value (gamut_fix 1 1 demo_pixel) 0 0 = 1"
  using gamut_floor [of demo_pixel 0 0 1] demo_pixel_facts by simp

text \<open>
  C2 as stated fails on a pixel whose maximum is negative: the pixel \<open>(- 1, - 1, - 1)\<close>
  has the maximum \<open>- 1\<close> before the pass and \<open>- 0.02\<close> after it, and its channels,
  \<open>- 0.02\<close>, are below 0.02 times that new maximum.
\<close>

theorem gamut_negative_max_changes:
  "max_value dark_pixel 0 0 = - 1 \<and> max_value (gamut_fix 1 1 dark_pixel) 0 0 = - 0.02
   \<and> atXY (gamut_fix 1 1 dark_pixel) 0 0 0 = - 0.02"
  by (simp add: gamut_fix_def gamut_row_def gamut_pixel_def dark_pixel_def max_value_def
      atXY_def set_atXY_def offset_def Let_def)


subsection \<open>Bilinear splats\<close>

lemma splat_tap_dims [simp]:
  "cwidth (splat_tap v a x y c w1 img) = cwidth img"
  "cheight (splat_tap v a x y c w1 img) = cheight img"
  "cspectrum (splat_tap v a x y c w1 img) = cspectrum img"
  "wf_img (splat_tap v a x y c w1 img) = wf_img img"
  by (simp_all add: splat_tap_def)

lemma splat_tap_at:
  assumes "wf_img img" "X < cwidth img" "Y < cheight img" "c < cspectrum img"
    "0 \<le> y" "y < int (cheight img)"
  shows "atXY (splat_tap v True x y c w1 img) X Y C =
     atXY img X Y C + (if int X = x \<and> int Y = y \<and> C = c then w1 * v else 0)"
proof (cases "0 \<le> x \<and> x < int (cwidth img)")
  case True
  then have "nat x < cwidth img" "nat y < cheight img" using assms(5,6) by linarith+
  from atXY_set_atXY [OF assms(1) this assms(4) assms(2,3)] True assms(5)
  show ?thesis by (auto simp: splat_tap_def)
next
  case False
  then have "int X \<noteq> x" using assms(2) by auto
  moreover from False have "splat_tap v True x y c w1 img = img" by (auto simp: splat_tap_def)
  ultimately show ?thesis by simp
qed

lemma set_linear_atXY_dims [simp]:
  "cwidth (set_linear_atXY v fx fy c a img) = cwidth img"
  "cheight (set_linear_atXY v fx fy c a img) = cheight img"
  "cspectrum (set_linear_atXY v fx fy c a img) = cspectrum img"
  "wf_img (set_linear_atXY v fx fy c a img) = wf_img img"
  by (simp_all add: set_linear_atXY_def Let_def)

text \<open>An accumulating splat adds to each pixel its bilinear share of the value.\<close>

lemma set_linear_atXY_at:
  assumes "wf_img img" "X < cwidth img" "Y < cheight img"
  shows "atXY (set_linear_atXY v fx fy c True img) X Y C =
     atXY img X Y C + (if C = c \<and> c < cspectrum img then tap_weight fx fy X Y * v else 0)"
proof (cases "c < cspectrum img")
  case False
  then show ?thesis by (simp add: set_linear_atXY_def Let_def)
next
  case c: True
  define x y dx dy where "x = cell fx" and "y = cell fy"
    and "dx = fx - of_int (cell fx)" and "dy = fy - of_int (cell fy)"
  define img1 where "img1 = (if 0 \<le> y \<and> y < int (cheight img)
                        then splat_tap v True (x + 1) y c (dx * (1 - dy))
                               (splat_tap v True x y c ((1 - dx) * (1 - dy)) img)
                        else img)"
  define img2 where "img2 = (if 0 \<le> y + 1 \<and> y + 1 < int (cheight img)
                        then splat_tap v True (x + 1) (y + 1) c (dx * dy)
                               (splat_tap v True x (y + 1) c ((1 - dx) * dy) img1)
                        else img1)"
  have r: "set_linear_atXY v fx fy c True img = img2"
    using c by (simp add: set_linear_atXY_def Let_def img2_def img1_def x_def y_def dx_def dy_def)
  have d1: "wf_img img1" "cwidth img1 = cwidth img" "cheight img1 = cheight img"
    "cspectrum img1 = cspectrum img"
    using assms(1) by (simp_all add: img1_def)
  have a1: "atXY img1 X Y C = atXY img X Y C +
      (if int Y = y \<and> C = c
       then (if int X = x then (1 - dx) * (1 - dy) * v
             else if int X = x + 1 then dx * (1 - dy) * v else 0)
       else 0)"
  proof (cases "0 \<le> y \<and> y < int (cheight img)")
    case True
    then show ?thesis using assms c by (simp add: img1_def splat_tap_at)
  next
    case False
    then have "int Y \<noteq> y" using assms(3) by auto
    moreover from False have "img1 = img" by (auto simp: img1_def)
    ultimately show ?thesis by simp
  qed
  have a2: "atXY img2 X Y C = atXY img1 X Y C +
      (if int Y = y + 1 \<and> C = c
       then (if int X = x then (1 - dx) * dy * v
             else if int X = x + 1 then dx * dy * v else 0)
       else 0)"
  proof (cases "0 \<le> y + 1 \<and> y + 1 < int (cheight img)")
    case True
    then show ?thesis using assms c d1 by (simp add: img2_def splat_tap_at)
  next
    case False
    then have "int Y \<noteq> y + 1" using assms(3) by auto
    moreover from False have "img2 = img1" by (auto simp: img2_def)
    ultimately show ?thesis by simp
  qed
  have "tap_weight fx fy X Y =
     (if int X = x then 1 - dx else if int X = x + 1 then dx else 0) *
     (if int Y = y then 1 - dy else if int Y = y + 1 then dy else 0)"
    by (simp add: tap_weight_def axis_weight_def x_def y_def dx_def dy_def)
  then show ?thesis unfolding r a2 a1 using c by (auto simp: algebra_simps)
qed

lemma splat_sample_dims [simp]:
  "cwidth (splat_sample e img) = cwidth img"
  "cheight (splat_sample e img) = cheight img"
  "cspectrum (splat_sample e img) = cspectrum img"
  "wf_img (splat_sample e img) = wf_img img"
  by (simp_all add: splat_sample_def)

lemma splat_sample_at:
  assumes "wf_img img" "cspectrum img = 3" "X < cwidth img" "Y < cheight img" "c < 3"
  shows "atXY (splat_sample e img) X Y c = atXY img X Y c + deposit X Y c e"
proof -
  have c: "c = 0 \<or> c = 1 \<or> c = 2" using assms(5) by auto
  show ?thesis using assms(1-4) c
    by (auto simp add: splat_sample_def set_linear_atXY_at deposit_def channel_value_def)
qed

lemma fold_splat_dims [simp]:
  "cwidth (fold splat_sample es img) = cwidth img"
  "cheight (fold splat_sample es img) = cheight img"
  "cspectrum (fold splat_sample es img) = cspectrum img"
  "wf_img (fold splat_sample es img) = wf_img img"
  by (induction es arbitrary: img) simp_all


lemma img_out_init_wf:
  "wf_img img_out_init" "cspectrum img_out_init = 3"
  "cwidth img_out_init = sensor_xres" "cheight img_out_init = sensor_yres"
  by (simp_all add: img_out_init_def new_img_wf) (simp_all add: new_img_def)


subsection \<open>Pixels of non-positive spectral power\<close>

lemma L_in_float: "c_float (L_in C ll j i) = L_in C ll j i"
  by (simp add: L_in_def)

lemma num_samples_nonpos:
  assumes "p \<le> 0"
  shows "num_samples p sample_mul = 1"
proof -
  have "p * sample_mul \<le> 0" using assms by (simp add: sample_mul_def)
  from c_float_nonpos [OF this] have "c_float (p * sample_mul) \<le> 0" .
  then have "\<lfloor>c_float (p * sample_mul)\<rfloor> \<le> 0" "\<not> 2147483648 \<le> c_float (p * sample_mul)"
    by (simp_all add: floor_le_zero)
  then show ?thesis unfolding num_samples_def max_float_to_int by simp
qed

lemma channel_value_splat_of:
  "channel_value (splat_of sys inp w (cr, cg, cb)) c =
     lambert_value (evaluate sys inp ! 2) * w * (if c = 0 then cr else if c = 1 then cg else cb)"
  by (simp add: channel_value_def splat_of_def Let_def)

text \<open>Test scene: the system of a row, the spectral power and the splat of a sample.\<close>

lemma demo_system_y: "system_y demo_scene ll j = [[], [], []]"
  by (simp add: system_y_def system_lambda_def system_lambert_cos2_def system_spectral_def
      system_spectral_center_def system_spectral_right_def demo_scene_def lerp_with_def
      lerp_poly_def scale_ext_def lambert_cos2_def poly_add_def poly_mul_def poly_truncate_def
      drop_equation_def bake_input_variable_def Let_def)

lemma demo_L_in: "L_in demo_scene ll j i = - (1 / 4)"
  using c_float_int [of "- 1" "- 2"] by (simp add: L_in_def demo_scene_def power_int_minus)

lemma demo_rgb: "rgb demo_scene ll = (1, 1, 1)"
  by (simp add: rgb_def demo_scene_def)

lemma demo_splat:
  "splat_of [[], [], []] inp w (1, 1, 1) = \<lparr>sp_x = 960, sp_y = 540, sp_r = w, sp_g = w, sp_b = w\<rparr>"
  by (simp add: splat_of_def evaluate_def eval_poly_def lambert_value_eq sensor_xres_def
      sensor_yres_def Let_def)

lemma demo_deposit:
  "deposit 960 540 c \<lparr>sp_x = 960, sp_y = 540, sp_r = w, sp_g = w, sp_b = w\<rparr> = w"
  by (simp add: deposit_def tap_weight_def axis_weight_def cell_def trunc_real_def channel_value_def)

text \<open>
  C10. When the spectral power of a pixel is zero or negative, the number of samples is
  1 and the weight of the sample is the spectral power itself. The pixel then runs the
  body of the sample loop once: when the rejection loop returns, the splat of the
  sample, whose three channel values are the Lambertian term times the spectral power
  times the RGB weight of the bin, is added to the output image, each pixel of the image
  receiving its bilinear share of these values.
\<close>

theorem nonpositive_power_one_sample:
  assumes "L_in C ll j i \<le> 0"
  shows "num_samples (L_in C ll j i) sample_mul = 1
     \<and> sample_weight (L_in C ll j i) (num_samples (L_in C ll j i) sample_mul) = L_in C ll j i
     \<and> render_pixel C ll j i (s, img) =
         (case sample_aperture r_pupil s of
            None \<Rightarrow> None
          | Some (x_ap, y_ap, s1) \<Rightarrow>
              Some (snd (unit_rand s1),
                    splat_sample
                      (splat_of (system_y C ll j)
                         [x_world i (cwidth (img_in C)) sensor_width (magnification C)
                            + pixel_size C * fst (unit_rand s1), x_ap, y_ap]
                         (L_in C ll j i) (rgb C ll))
                      img))
     \<and> channel_value (splat_of sys inp (L_in C ll j i) (cr, cg, cb)) c =
         lambert_value (evaluate sys inp ! 2) * L_in C ll j i
           * (if c = 0 then cr else if c = 1 then cg else cb)
     \<and> (wf_img img \<and> cspectrum img = 3 \<and> X < cwidth img \<and> Y < cheight img \<and> c < 3 \<longrightarrow>
          atXY (splat_sample e img) X Y c =
            atXY img X Y c + tap_weight (sp_x e) (sp_y e) X Y * channel_value e c)"
proof -
  have n: "num_samples (L_in C ll j i) sample_mul = 1" using assms by (rule num_samples_nonpos)
  have w: "sample_weight (L_in C ll j i) 1 = L_in C ll j i"
    by (simp add: sample_weight_def L_in_float)
  have r: "render_pixel C ll j i (s, img) =
         (case sample_aperture r_pupil s of
            None \<Rightarrow> None
          | Some (x_ap, y_ap, s1) \<Rightarrow>
              Some (snd (unit_rand s1),
                    splat_sample
                      (splat_of (system_y C ll j)
                         [x_world i (cwidth (img_in C)) sensor_width (magnification C)
                            + pixel_size C * fst (unit_rand s1), x_ap, y_ap]
                         (L_in C ll j i) (rgb C ll))
                      img))"
    by (simp add: render_pixel_def Let_def n w one_sample_def eval_sample_def split_beta
        split: option.splits)
  have a: "atXY (splat_sample e img) X Y c =
            atXY img X Y c + tap_weight (sp_x e) (sp_y e) X Y * channel_value e c"
    if "wf_img img \<and> cspectrum img = 3 \<and> X < cwidth img \<and> Y < cheight img \<and> c < 3"
    using that splat_sample_at [of img X Y c e] by (simp add: deposit_def)
  from n w r a channel_value_splat_of [of sys inp "L_in C ll j i" cr cg cb c]
  show ?thesis by simp
qed

text \<open>
  On the test scene, whose pixel has the spectral power \<open>- 1/4\<close>, the pixel draws one
  sample of weight \<open>- 1/4\<close>, and the pixel \<open>(960, 540)\<close> of the output image receives
  \<open>- 1/4\<close>.
\<close>

theorem nonpositive_power_one_sample_witness:
  "L_in demo_scene 0 0 0 \<le> 0
   \<and> num_samples (L_in demo_scene 0 0 0) sample_mul = 1
   \<and> sample_weight (L_in demo_scene 0 0 0) 1 = - (1 / 4)
   \<and> render_pixel demo_scene 0 0 0 (demo_rand, img_out_init) =
       Some (demo_rand,
             splat_sample \<lparr>sp_x = 960, sp_y = 540, sp_r = - (1 / 4), sp_g = - (1 / 4),
                            sp_b = - (1 / 4)\<rparr> img_out_init)
   \<and> atXY (splat_sample \<lparr>sp_x = 960, sp_y = 540, sp_r = - (1 / 4), sp_g = - (1 / 4),
                            sp_b = - (1 / 4)\<rparr> img_out_init) 960 540 0 = - (1 / 4)"
proof -
  let ?e = "\<lparr>sp_x = 960, sp_y = 540, sp_r = - (1 / 4), sp_g = - (1 / 4), sp_b = - (1 / 4)\<rparr>"
  have l: "L_in demo_scene 0 0 0 \<le> 0" by (simp add: demo_L_in)
  note T = nonpositive_power_one_sample [OF l, where s = demo_rand and img = img_out_init
      and X = 960 and Y = 540 and c = 0 and e = ?e]
  have i: "wf_img img_out_init \<and> cspectrum img_out_init = 3 \<and> 960 < cwidth img_out_init
      \<and> 540 < cheight img_out_init \<and> (0::nat) < 3"
    by (simp add: img_out_init_wf) (simp add: sensor_xres_def sensor_yres_def)
  have z: "atXY img_out_init 960 540 0 = 0"
    unfolding img_out_init_def by (rule new_img_at) (simp_all add: sensor_xres_def sensor_yres_def)
  from T have n: "num_samples (L_in demo_scene 0 0 0) sample_mul = 1" by blast
  from T have "sample_weight (L_in demo_scene 0 0 0) (num_samples (L_in demo_scene 0 0 0) sample_mul)
      = L_in demo_scene 0 0 0" by blast
  then have "sample_weight (L_in demo_scene 0 0 0) 1 = - (1 / 4)"
    unfolding n by (simp add: demo_L_in)
  moreover note n
  moreover from T have "render_pixel demo_scene 0 0 0 (demo_rand, img_out_init) =
       Some (demo_rand, splat_sample ?e img_out_init)"
    by (simp add: demo_sample demo_unit_rand demo_system_y demo_L_in demo_rgb demo_splat)
  moreover from T i have "atXY (splat_sample ?e img_out_init) 960 540 0 =
      atXY img_out_init 960 540 0 + tap_weight (sp_x ?e) (sp_y ?e) 960 540 * channel_value ?e 0"
    by blast
  then have "atXY (splat_sample ?e img_out_init) 960 540 0 = - (1 / 4)"
    using demo_deposit [of 0 "- (1 / 4)"] by (simp add: z deposit_def)
  ultimately show ?thesis using l by blast
qed

subsection \<open>The loops of the renderer and the samples of the pass\<close>










subsection \<open>The output image as a sum of splats\<close>



subsection \<open>Baking a variable\<close>

text \<open>
  The system with a variable baked, evaluated at an input vector, is the system
  evaluated at that vector with the baked value inserted at the place of the variable.
\<close>

lemma eval_term_bake:
  assumes "k \<le> length xs"
  shows "eval_term xs (bake_term k v t) = eval_term (take k xs @ v # drop k xs) t"
proof (cases "k < length (snd t)")
  case True
  define es where "es = snd t"
  have es: "es = take k es @ es ! k # drop (Suc k) es"
    using True by (simp add: es_def id_take_nth_drop)
  have l: "length (take k xs) = length (take k es)" using assms True by (simp add: es_def)
  have "zip (take k xs @ v # drop k xs) es =
      zip (take k xs) (take k es) @ (v, es ! k) # zip (drop k xs) (drop (Suc k) es)"
    by (subst es) (simp add: zip_append [OF l])
  moreover have "zip xs (take k es @ drop (Suc k) es) =
      zip (take k xs) (take k es) @ zip (drop k xs) (drop (Suc k) es)"
    using zip_append [OF l, of "drop k xs" "drop (Suc k) es"] by simp
  ultimately show ?thesis using True
    by (simp add: eval_term_def bake_term_def es_def [symmetric])
next
  case False
  then have "zip (take k xs @ v # drop k xs) (snd t) = zip (take k xs) (snd t)"
    using assms by (simp add: zip_append1)
  moreover have "zip (take k xs @ drop k xs) (snd t) = zip (take k xs) (snd t)"
    using False assms by (simp add: zip_append1 min_absorb2 del: append_take_drop_id)
  then have "zip xs (snd t) = zip (take k xs) (snd t)" by simp
  ultimately show ?thesis using False by (simp add: eval_term_def bake_term_def)
qed

lemma evaluate_bake:
  assumes "k \<le> length xs"
  shows "evaluate (bake_input_variable k v sys) xs = evaluate sys (take k xs @ v # drop k xs)"
  using assms
  by (simp add: evaluate_def bake_input_variable_def eval_poly_def comp_def eval_term_bake)

lemma row_scene_eval:
  "evaluate (system_lambda (row_scene n) ll) [x, y, a, b] = [0, y, 0]"
  by (simp add: system_lambda_def system_lambert_cos2_def system_spectral_def
      system_spectral_center_def system_spectral_right_def row_scene_def lerp_with_def
      lerp_poly_def scale_ext_def lambert_cos2_def poly_add_def poly_mul_def poly_truncate_def
      drop_equation_def bake_input_variable_def bake_term_def term_degree_def degree_def Let_def
      evaluate_def eval_poly_def eval_term_def algebra_simps)

text \<open>
  C6, as the program has it. The system of a row is the system of the spectral bin with
  its second input variable, the world-y coordinate, replaced by a number: evaluated
  at \<open>(x, x_ap, y_ap)\<close> it is the system of the bin evaluated at
  \<open>(x, y_world, x_ap, y_ap)\<close>. The number is computed from the row index, the pixel
  height and the pixel width of the input image, the physical width of the sensor and
  the magnification: \<open>(j - height div 2) / width * sensor_width / magnification\<close>.
\<close>

theorem row_baking:
  "evaluate (system_y C ll j) [x, x_ap, y_ap] =
     evaluate (system_lambda C ll)
       [x, y_world j (cheight (img_in C)) (cwidth (img_in C)) sensor_width (magnification C),
        x_ap, y_ap]
   \<and> y_world j (cheight (img_in C)) (cwidth (img_in C)) sensor_width (magnification C) =
       of_int (int j - int (cheight (img_in C) div 2)) / real (cwidth (img_in C)) * sensor_width
         / magnification C"
  using evaluate_bake [of 1 "[x, x_ap, y_ap]"]
  by (simp add: system_y_def y_world_def y_sensor_def)

text \<open>
  For the second row of an input image of \<open>4 \<times> 4\<close> pixels at magnification 1 the
  baked number is \<open>(1 - 2) / 4 * 36 = - 9\<close>, the second output of a lens that returns
  its world-y input.
\<close>

theorem row_baking_witness:
  "evaluate (system_y (row_scene 4) 0 1) [0, 0, 0] = [0, - 9, 0]
   \<and> y_world 1 (cheight (img_in (row_scene 4))) (cwidth (img_in (row_scene 4))) sensor_width
        (magnification (row_scene 4)) = - 9"
proof -
  have d: "cheight (img_in (row_scene 4)) = 4" "cwidth (img_in (row_scene 4)) = 4"
    "magnification (row_scene 4) = 1"
    by (simp_all add: row_scene_def new_img_def)
  from row_baking [of "row_scene 4" 0 1 0 0 0] show ?thesis
    by (simp add: d row_scene_eval y_world_def y_sensor_def sensor_width_def)
qed

text \<open>
  C6 as stated fails: the baked number is not a function of the row index, the physical
  height of the sensor and the magnification. Two input images of \<open>2 \<times> 2\<close> and of
  \<open>4 \<times> 4\<close> pixels, on the same sensor and at the same magnification, give for the
  same row the numbers 0 and \<open>- 9\<close>.
\<close>

theorem row_baking_depends_on_image_size:
  "magnification (row_scene 2) = magnification (row_scene 4)
   \<and> spec_sensor_height = 81 / 4
   \<and> y_world 1 (cheight (img_in (row_scene 2))) (cwidth (img_in (row_scene 2))) sensor_width
        (magnification (row_scene 2)) = 0
   \<and> y_world 1 (cheight (img_in (row_scene 4))) (cwidth (img_in (row_scene 4))) sensor_width
        (magnification (row_scene 4)) = - 9
   \<and> evaluate (system_y (row_scene 2) 0 1) [0, 0, 0] = [0, 0, 0]
   \<and> evaluate (system_y (row_scene 4) 0 1) [0, 0, 0] = [0, - 9, 0]"
proof -
  have d: "cheight (img_in (row_scene n)) = n" "cwidth (img_in (row_scene n)) = n"
    "magnification (row_scene n) = 1" for n
    by (simp_all add: row_scene_def new_img_def)
  have "evaluate (system_y (row_scene n) 0 1) [0, 0, 0] =
      [0, y_world 1 (cheight (img_in (row_scene n))) (cwidth (img_in (row_scene n))) sensor_width
            (magnification (row_scene n)), 0]" for n
    using evaluate_bake [of 1 "[0, 0, 0]"] by (simp add: system_y_def row_scene_eval)
  then show ?thesis
    by (simp add: d y_world_def y_sensor_def sensor_width_def spec_sensor_height_def
        sensor_xres_def sensor_yres_def)
qed

subsection \<open>The Spectral Compositor\<close>

lemma lambert_cos2_list:
  assumes "length s = 4"
  shows "lambert_cos2 s =
      [s ! 0, s ! 1,
       poly_truncate 2 (poly_add (poly_mul (s ! 2) (s ! 2)) (poly_mul (s ! 3) (s ! 3)))]"
proof -
  from assms obtain a b c d where s: "s = [a, b, c, d]"
    by (cases s; cases "tl s"; cases "tl (tl s)"; cases "tl (tl (tl s))") auto
  show ?thesis unfolding s by (simp add: lambert_cos2_def drop_equation_def Let_def)
qed

text \<open>The product and the sum of the model are the product and the sum of the values.\<close>

lemma prod_powers_add:
  fixes xs :: "real list"
  assumes "length es = length fs"
  shows "prod_list (map2 (\<lambda>x e. x ^ e) xs (map2 (+) es fs)) =
     prod_list (map2 (\<lambda>x e. x ^ e) xs es) * prod_list (map2 (\<lambda>x e. x ^ e) xs fs)"
  using assms
proof (induction es fs arbitrary: xs rule: list_induct2)
  case Nil
  then show ?case by simp
next
  case (Cons e es f fs)
  show ?case
  proof (cases xs)
    case Nil
    then show ?thesis by simp
  next
    case (Cons x xs')
    with Cons.IH [of xs'] show ?thesis by (simp add: power_add)
  qed
qed

lemma eval_term_mul:
  assumes "length (snd t) = length (snd u)"
  shows "eval_term xs (term_mul t u) = eval_term xs t * eval_term xs u"
  using prod_powers_add [OF assms, of xs] by (simp add: eval_term_def term_mul_def)

lemma eval_poly_mul:
  assumes "list_all (\<lambda>t. length (snd t) = n) p" "list_all (\<lambda>t. length (snd t) = n) q"
  shows "eval_poly xs (poly_mul p q) = eval_poly xs p * eval_poly xs q"
  using assms(1)
proof (induction p)
  case Nil
  then show ?case by (simp add: poly_mul_def eval_poly_def)
next
  case (Cons t p)
  have "sum_list (map (eval_term xs) (map (term_mul t) q)) = eval_term xs t * eval_poly xs q"
    using assms(2) Cons.prems
  proof (induction q)
    case Nil
    then show ?case by (simp add: eval_poly_def)
  next
    case (Cons u q)
    then have "eval_term xs (term_mul t u) = eval_term xs t * eval_term xs u"
      by (intro eval_term_mul) simp
    with Cons show ?case by (simp add: eval_poly_def algebra_simps)
  qed
  moreover have "eval_poly xs (poly_mul p q) = eval_poly xs p * eval_poly xs q"
    using Cons by simp
  ultimately show ?case
    by (simp add: poly_mul_def eval_poly_def algebra_simps)
qed

lemma eval_poly_add: "eval_poly xs (poly_add p q) = eval_poly xs p + eval_poly xs q"
  by (simp add: eval_poly_def poly_add_def)

lemma sum_of_squares_eval:
  assumes "wf_sys n 4 s"
  shows "eval_poly xs (poly_add (poly_mul (s ! 2) (s ! 2)) (poly_mul (s ! 3) (s ! 3))) =
     (eval_poly xs (s ! 2))\<^sup>2 + (eval_poly xs (s ! 3))\<^sup>2"
proof -
  from assms obtain a b c d where s: "s = [a, b, c, d]"
    by (cases s; cases "tl s"; cases "tl (tl s)"; cases "tl (tl (tl s))") (auto simp: wf_sys_def)
  have "list_all (\<lambda>t. length (snd t) = n) c" "list_all (\<lambda>t. length (snd t) = n) d"
    using assms by (simp_all add: s wf_sys_def)
  then show ?thesis
    by (simp add: s eval_poly_add eval_poly_mul power2_eq_square)
qed

text \<open>
  C4, as the program has it. The rearrangement of a system of four output equations
  yields three: the first two are unchanged, and the third is the sum of the squares of
  the third and the fourth (a polynomial whose value is the sum of the squares of
  their values), truncated to the total degree 2 (the literal of the program, not the
  working degree 3); the fourth is dropped.
\<close>

theorem lambert_cos2_shape:
  assumes "wf_sys n 4 s"
  shows "length (lambert_cos2 s) = 3
     \<and> lambert_cos2 s ! 0 = s ! 0 \<and> lambert_cos2 s ! 1 = s ! 1
     \<and> lambert_cos2 s ! 2 =
         poly_truncate 2 (poly_add (poly_mul (s ! 2) (s ! 2)) (poly_mul (s ! 3) (s ! 3)))
     \<and> eval_poly xs (poly_add (poly_mul (s ! 2) (s ! 2)) (poly_mul (s ! 3) (s ! 3))) =
         (eval_poly xs (s ! 2))\<^sup>2 + (eval_poly xs (s ! 3))\<^sup>2"
proof -
  have "length s = 4" using assms by (simp add: wf_sys_def)
  from lambert_cos2_list [OF this] sum_of_squares_eval [OF assms, of xs]
  show ?thesis by simp
qed

text \<open>
  For the equations \<open>x\<^sub>2 + x\<^sub>2 * l\<close> and \<open>x\<^sub>3\<close> the third output is
  \<open>x\<^sub>2\<^sup>2 + x\<^sub>3\<^sup>2\<close>: the terms of degree 3 and 4 of the square are gone.
\<close>

theorem lambert_cos2_shape_witness:
  "wf_sys 5 4 demo_sys \<and> length (lambert_cos2 demo_sys) = 3
   \<and> lambert_cos2 demo_sys ! 2 = [(1, [0, 0, 2, 0, 0]), (1, [0, 0, 0, 2, 0])]"
  using lambert_cos2_shape [of 5 demo_sys "[]"]
  by (simp add: wf_sys_def demo_sys_def poly_truncate_def poly_add_def poly_mul_def term_mul_def
      term_degree_def)

text \<open>
  C4 as stated fails: truncated to the working degree 3, the sum of the squares keeps
  the terms \<open>2 * x\<^sub>2\<^sup>2 * l\<close> of degree 3, which the program discards. At
  \<open>x\<^sub>2 = 1\<close>, \<open>l = 1\<close> the third output of the program is 1, that of the
  specification 3.
\<close>

theorem lambert_cos2_not_working_degree:
  "evaluate (lambert_cos2 demo_sys) [0, 0, 1, 0, 1] = [0, 0, 1]
   \<and> evaluate (spec_lambert_cos2 demo_sys) [0, 0, 1, 0, 1] = [0, 0, 3]"
  by (simp add: lambert_cos2_def spec_lambert_cos2_def demo_sys_def poly_add_def poly_mul_def
      term_mul_def poly_truncate_def term_degree_def drop_equation_def Let_def degree_def
      evaluate_def eval_poly_def eval_term_def)

lemma eval_term_ext:
  assumes "length (snd t) = length xs"
  shows "eval_term (xs @ [l]) (a * fst t, snd t @ [e]) = a * l ^ e * eval_term xs t"
  using assms by (simp add: eval_term_def)

lemma eval_scale_ext:
  assumes "list_all (\<lambda>t. length (snd t) = length xs) p"
  shows "eval_poly (xs @ [l]) (scale_ext a e p) = a * l ^ e * eval_poly xs p"
  using assms
proof (induction p)
  case Nil
  then show ?case by (simp add: eval_poly_def scale_ext_def)
next
  case (Cons t p)
  then have "eval_poly (xs @ [l]) (scale_ext a e p) = a * l ^ e * eval_poly xs p" by simp
  moreover have "eval_term (xs @ [l]) (a * fst t, snd t @ [e]) = a * l ^ e * eval_term xs t"
    using Cons.prems by (intro eval_term_ext) simp
  ultimately show ?case
    by (simp add: eval_poly_def scale_ext_def algebra_simps)
qed

lemma eval_poly_append: "eval_poly xs (p @ q) = eval_poly xs p + eval_poly xs q"
  by (simp add: eval_poly_def)

lemma lerp_arith:
  fixes P Q l a d :: real
  assumes "d \<noteq> 0"
  shows "(a + d) / d * P + - 1 / d * l * P + - a / d * Q + 1 / d * l * Q
       = P + (Q - P) * ((l - a) / d)"
  using assms by (simp add: field_simps)

lemma eval_lerp_poly:
  assumes "list_all (\<lambda>t. length (snd t) = length xs) p"
    and "list_all (\<lambda>t. length (snd t) = length xs) q"
    and "pos_this \<noteq> pos_other"
  shows "eval_poly (xs @ [l]) (lerp_poly pos_this pos_other p q) =
     eval_poly xs p + (eval_poly xs q - eval_poly xs p) * ((l - pos_this) / (pos_other - pos_this))"
proof -
  define d where "d = pos_other - pos_this"
  have d: "d \<noteq> 0" and po: "pos_other = pos_this + d" using assms(3) by (simp_all add: d_def)
  have "eval_poly (xs @ [l]) (lerp_poly pos_this pos_other p q) =
      (pos_this + d) / d * eval_poly xs p + - 1 / d * l * eval_poly xs p
      + - pos_this / d * eval_poly xs q + 1 / d * l * eval_poly xs q"
    unfolding lerp_poly_def Let_def eval_poly_append
      eval_scale_ext [OF assms(1)] eval_scale_ext [OF assms(2)]
    by (simp add: d_def)
  also have "\<dots> = eval_poly xs p + (eval_poly xs q - eval_poly xs p) * ((l - pos_this) / d)"
    by (rule lerp_arith [OF d])
  finally show ?thesis by (simp add: d_def)
qed

text \<open>
  The interpolated system at the control value \<open>l\<close> is the first system plus the
  fraction \<open>(l - pos_this) / (pos_other - pos_this)\<close> of the difference of the two.
\<close>

lemma eval_lerp_with:
  assumes "wf_sys (length xs) m sys" "wf_sys (length xs) m other" "pos_this \<noteq> pos_other"
  shows "evaluate (lerp_with sys other pos_this pos_other) (xs @ [l]) =
     map2 (\<lambda>a b. a + (b - a) * ((l - pos_this) / (pos_other - pos_this)))
       (evaluate sys xs) (evaluate other xs)"
  using assms(1,2)
proof (induction sys arbitrary: other m)
  case Nil
  then show ?case by (simp add: lerp_with_def evaluate_def)
next
  case (Cons p sys)
  then obtain q rest where o: "other = q # rest" by (cases other) (auto simp: wf_sys_def)
  have wf: "wf_sys (length xs) (length sys) sys" "wf_sys (length xs) (length sys) rest"
    using Cons.prems o by (auto simp: wf_sys_def)
  have IH: "evaluate (lerp_with sys rest pos_this pos_other) (xs @ [l]) =
     map2 (\<lambda>a b. a + (b - a) * ((l - pos_this) / (pos_other - pos_this)))
       (evaluate sys xs) (evaluate rest xs)"
    by (rule Cons.IH [OF wf])
  have "eval_poly (xs @ [l]) (lerp_poly pos_this pos_other p q) =
     eval_poly xs p + (eval_poly xs q - eval_poly xs p) * ((l - pos_this) / (pos_other - pos_this))"
    using Cons.prems o by (intro eval_lerp_poly assms(3)) (auto simp: wf_sys_def)
  with IH show ?case unfolding o by (simp add: lerp_with_def evaluate_def)
qed

text \<open>
  The interpolation of \<^verbatim>\<open>main\<close>: the system sampled at 500 nm is placed at the control
  value 550, the system sampled at 600 nm at 600.
\<close>

lemma system_spectral_eval:
  assumes "wf_sys 4 4 (system_at C 500)" "wf_sys 4 4 (system_at C 600)" "length xs = 4"
  shows "evaluate (system_spectral C) (xs @ [l]) =
     map2 (\<lambda>a b. a + (b - a) * ((l - 550) / 50))
       (evaluate (system_spectral_center C) xs) (evaluate (system_spectral_right C) xs)"
  using eval_lerp_with [of xs 4 "system_at C 500" "system_at C 600" 550 600 l] assms
  by (simp add: system_spectral_def system_spectral_center_def system_spectral_right_def)

text \<open>
  C5 on the program. With a lens that is \<open>x\<close> at 500 nm and \<open>2 * x\<close> at 600 nm, the
  interpolated system is \<open>2 * x\<close> at the wavelength 600, as the system sampled there,
  but at the wavelength 500 it is \<open>0\<close>, not the \<open>x\<close> of the system sampled at 500 nm:
  that system is reproduced at the wavelength 550, the position given to the
  interpolation.
\<close>

theorem lerp_anchor_mismatch:
  "evaluate (system_spectral_center demo_collab) [1, 0, 0, 0] = [1, 0, 0, 0]
 \<and> evaluate (system_spectral_right demo_collab) [1, 0, 0, 0] = [2, 0, 0, 0]
 \<and> evaluate (system_spectral demo_collab) [1, 0, 0, 0, 500] = [0, 0, 0, 0]
 \<and> evaluate (system_spectral demo_collab) [1, 0, 0, 0, 550] = [1, 0, 0, 0]
 \<and> evaluate (system_spectral demo_collab) [1, 0, 0, 0, 600] = [2, 0, 0, 0]"
  by (simp add: system_spectral_def system_spectral_center_def system_spectral_right_def
      demo_collab_def lerp_with_def lerp_poly_def scale_ext_def evaluate_def eval_poly_def
      eval_term_def Let_def)

end
